theory Spec2Isabelle
  imports Main
begin

section \<open>Characters and text\<close>

text \<open>
  Text is modelled as \<^typ>\<open>string\<close>; a character stands for the code point with the
  same number, so the model covers the code points 0 to 255.  The three predicates below
  are Python's \<^verbatim>\<open>str.isspace\<close> (also the regular-expression class \<^verbatim>\<open>\s\<close>),
  \<^verbatim>\<open>str.isalnum\<close> and the class \<^verbatim>\<open>\w\<close> on that range.
\<close>

definition is_space :: "char \<Rightarrow> bool" where
  "is_space c =
     (let n = (of_char c :: nat)
      in (9 \<le> n \<and> n \<le> 13) \<or> (28 \<le> n \<and> n \<le> 32) \<or> n = 133 \<or> n = 160)"

definition is_alnum :: "char \<Rightarrow> bool" where
  "is_alnum c =
     (let n = (of_char c :: nat)
      in (48 \<le> n \<and> n \<le> 57) \<or> (65 \<le> n \<and> n \<le> 90) \<or> (97 \<le> n \<and> n \<le> 122)
         \<or> n = 170 \<or> n = 178 \<or> n = 179 \<or> n = 181 \<or> n = 185 \<or> n = 186
         \<or> (188 \<le> n \<and> n \<le> 190) \<or> (192 \<le> n \<and> n \<le> 214)
         \<or> (216 \<le> n \<and> n \<le> 246) \<or> 248 \<le> n)"

definition is_word :: "char \<Rightarrow> bool" where
  "is_word c = (is_alnum c \<or> c = CHR ''_'')"

text \<open>The class \<^verbatim>\<open>[^\]\s]\<close> and the dot (any character but a line feed).\<close>

definition is_bare :: "char \<Rightarrow> bool" where
  "is_bare c = (c \<noteq> CHR '']'' \<and> \<not> is_space c)"

definition is_dot :: "char \<Rightarrow> bool" where
  "is_dot c = (c \<noteq> CHR 0x0A)"

definition is_digit :: "char \<Rightarrow> bool" where
  "is_digit c = (let n = (of_char c :: nat) in 48 \<le> n \<and> n \<le> 57)"

text \<open>\<^verbatim>\<open>str.strip()\<close> and \<^verbatim>\<open>sep.join(xs)\<close>.\<close>

definition py_strip :: "string \<Rightarrow> string" where
  "py_strip s = rev (dropWhile is_space (rev (dropWhile is_space s)))"

fun join :: "string \<Rightarrow> string list \<Rightarrow> string" where
  "join sep [] = []"
| "join sep [x] = x"
| "join sep (x # y # r) = x @ sep @ join sep (y # r)"

section \<open>Python values\<close>

text \<open>
  The values that argument scopes hold and that the expression evaluator returns: the
  scope of the command-line wrapper binds a version string and the integer 1, and a
  structured-argument literal may bind anything it can denote.
\<close>

datatype pyval =
    PNone
  | PBool bool
  | PInt int
  | PStr string
  | PDict "(pyval \<times> pyval) list"

type_synonym pydict = "(pyval \<times> pyval) list"

text \<open>\<^verbatim>\<open>d.get(key, default)\<close> for a text key.\<close>

definition dict_get :: "pydict \<Rightarrow> string \<Rightarrow> pyval \<Rightarrow> pyval" where
  "dict_get d k dflt = (case map_of d (PStr k) of Some v \<Rightarrow> v | None \<Rightarrow> dflt)"

text \<open>Truth value of a Python value, as \<^verbatim>\<open>not v\<close> and \<^verbatim>\<open>if v\<close> take it.\<close>

fun truthy :: "pyval \<Rightarrow> bool" where
  "truthy PNone = False"
| "truthy (PBool b) = b"
| "truthy (PInt i) = (i \<noteq> 0)"
| "truthy (PStr s) = (s \<noteq> [])"
| "truthy (PDict d) = (d \<noteq> [])"

datatype exn =
    RecursionError string
  | CircularReferenceError string
  | IndexError
  | TypeError
  | ValueError

text \<open>Decimal rendering of an integer, as an f-string field renders it.\<close>

fun str_nat :: "nat \<Rightarrow> string" where
  "str_nat n = (if n < 10 then [''0123456789'' ! n]
                else str_nat (n div 10) @ [''0123456789'' ! (n mod 10)])"

declare str_nat.simps [simp del]

definition str_int :: "int \<Rightarrow> string" where
  "str_int i = (if i < 0 then CHR ''-'' # str_nat (nat (- i)) else str_nat (nat i))"

text \<open>
  \<^verbatim>\<open>int(v)\<close>: text is stripped, may carry a sign, and is a run of decimal digits in which
  single underscores may separate digits; anything else is a ValueError.  An integer is
  itself, a boolean is 0 or 1, and \<^verbatim>\<open>None\<close> or a dictionary is a TypeError.  The
  interpreter's limit on the number of digits is not part of the model.
\<close>

fun int_literal_ok :: "string \<Rightarrow> bool" where
  "int_literal_ok [] = False"
| "int_literal_ok [c] = is_digit c"
| "int_literal_ok (c # d # r) =
     (is_digit c \<and> (if d = CHR ''_'' then int_literal_ok r else int_literal_ok (d # r)))"

definition digits_value :: "string \<Rightarrow> int" where
  "digits_value ds =
     foldl (\<lambda>a c. 10 * a + (int (of_char c) - 48)) 0 (filter is_digit ds)"

definition int_of_text :: "string \<Rightarrow> exn + int" where
  "int_of_text s =
     (let t = py_strip s;
          neg = (t \<noteq> [] \<and> hd t = CHR ''-'');
          ds = (if t \<noteq> [] \<and> (hd t = CHR ''-'' \<or> hd t = CHR ''+'') then tl t else t)
      in if int_literal_ok ds
         then Inr (if neg then - digits_value ds else digits_value ds)
         else Inl ValueError)"

fun py_int :: "pyval \<Rightarrow> exn + int" where
  "py_int (PInt i) = Inr i"
| "py_int (PBool b) = Inr (if b then 1 else 0)"
| "py_int (PStr s) = int_of_text s"
| "py_int PNone = Inl TypeError"
| "py_int (PDict d) = Inl TypeError"

section \<open>The directive pattern\<close>

text \<open>
  The pattern of \<^verbatim>\<open>parse_directive\<close> is
  \<^verbatim>\<open>\[\$([\w_]+)((?:\s+(?:\{.*?\}|[^\]\s]+))*)\]\<close>.
  A backtracking matcher tries the alternatives of a pattern in a fixed order and reports
  the first way to match that it finds.  \<open>rx_match r s\<close> lists every way in which \<open>r\<close>
  matches a prefix of \<open>s\<close>, as pairs of the matched text and the rest, in the order in
  which the matcher tries them: a greedy repetition tries one more round before it tries
  to stop, a lazy one tries to stop first.  The head of the list is what the matcher
  reports.
\<close>

datatype rx =
    Sym "char \<Rightarrow> bool"
  | Seq rx rx
  | Alt rx rx
  | Star rx
  | LazyStar rx

definition Plus :: "rx \<Rightarrow> rx" where
  "Plus a = Seq a (Star a)"

definition Lit :: "char \<Rightarrow> rx" where
  "Lit c = Sym (\<lambda>x. x = c)"

function rx_match :: "rx \<Rightarrow> string \<Rightarrow> (string \<times> string) list" where
  "rx_match (Sym p) s = (case s of [] \<Rightarrow> [] | c # cs \<Rightarrow> if p c then [([c], cs)] else [])"
| "rx_match (Seq a b) s =
     concat (map (\<lambda>(u, r). map (\<lambda>(v, r'). (u @ v, r')) (rx_match b r)) (rx_match a s))"
| "rx_match (Alt a b) s = rx_match a s @ rx_match b s"
| "rx_match (Star a) s =
     concat (map (\<lambda>(u, r). if length r < length s
                             then map (\<lambda>(v, r'). (u @ v, r')) (rx_match (Star a) r)
                             else [])
                 (rx_match a s))
     @ [([], s)]"
| "rx_match (LazyStar a) s =
     ([], s) #
     concat (map (\<lambda>(u, r). if length r < length s
                             then map (\<lambda>(v, r'). (u @ v, r')) (rx_match (LazyStar a) r)
                             else [])
                 (rx_match a s))"
  by pat_completeness auto
termination
  by (relation "measure size <*lex*> measure length") auto

declare rx_match.simps [simp del]

text \<open>One argument with the white space before it: \<^verbatim>\<open>\s+(?:\{.*?\}|[^\]\s]+)\<close>.\<close>

definition arg_rx :: rx where
  "arg_rx = Seq (Plus (Sym is_space))
                (Alt (Seq (Lit CHR ''{'') (Seq (LazyStar (Sym is_dot)) (Lit CHR ''}'')))
                     (Plus (Sym is_bare)))"

text \<open>
  The whole pattern at the start of \<open>s\<close>: every match as (group 1, group 2, text after
  the match), in the matcher's order.
\<close>

definition directive_at :: "string \<Rightarrow> (string \<times> string \<times> string) list" where
  "directive_at s =
     concat (map (\<lambda>(u0, r0).
       concat (map (\<lambda>(name, r1).
         concat (map (\<lambda>(g2, r2).
           map (\<lambda>(u3, r3). (name, g2, r3)) (rx_match (Lit CHR '']'') r2))
           (rx_match (Star arg_rx) r1)))
         (rx_match (Plus (Sym is_word)) r0)))
       (rx_match (Seq (Lit CHR ''['') (Lit CHR ''$'')) s))"

text \<open>
  \<^verbatim>\<open>re.search\<close>: the start positions are tried from left to right; \<open>i\<close> is the position
  of \<open>s\<close> in the whole text.
\<close>

fun re_search :: "nat \<Rightarrow> string \<Rightarrow> (nat \<times> string \<times> string) option" where
  "re_search i [] = (case directive_at [] of [] \<Rightarrow> None | (name, g2, _) # _ \<Rightarrow> Some (i, name, g2))"
| "re_search i (c # cs) =
     (case directive_at (c # cs) of
        [] \<Rightarrow> re_search (Suc i) cs
      | (name, g2, _) # _ \<Rightarrow> Some (i, name, g2))"

section \<open>Parsing a directive\<close>

record DirectiveMatch =
  full_match :: string
  directive_name :: string
  args :: "string list"
  start :: nat
  end_pos :: nat

text \<open>
  The character loop of \<^verbatim>\<open>parse_directive\<close>, with its three variables \<^verbatim>\<open>args\<close>,
  \<^verbatim>\<open>current_arg\<close> and \<^verbatim>\<open>in_braces\<close>.  The last equation is the code after the loop.
\<close>

fun split_args :: "string list \<Rightarrow> string \<Rightarrow> bool \<Rightarrow> string \<Rightarrow> string list" where
  "split_args acc cur in_braces [] = (if cur \<noteq> [] then acc @ [cur] else acc)"
| "split_args acc cur in_braces (c # cs) =
     (if c = CHR ''{'' then split_args acc (cur @ [c]) True cs
      else if c = CHR ''}'' then split_args acc (cur @ [c]) False cs
      else if is_space c \<and> \<not> in_braces
           then (if cur \<noteq> [] then split_args (acc @ [cur]) [] in_braces cs
                 else split_args acc cur in_braces cs)
      else split_args acc (cur @ [c]) in_braces cs)"

definition parse_directive :: "string \<Rightarrow> DirectiveMatch option" where
  "parse_directive content =
     (case re_search 0 content of
        None \<Rightarrow> None
      | Some (i, name, g2) \<Rightarrow>
          let args_str = py_strip g2;
              whole = ''[$'' @ name @ g2 @ '']''
          in Some \<lparr> full_match = whole,
                    directive_name = name,
                    args = (if args_str \<noteq> [] then split_args [] [] False args_str else []),
                    start = i,
                    end_pos = i + length whole \<rparr>)"

section \<open>State, environment and results\<close>

text \<open>
  What is printed is kept as a list of events, one constructor for each \<^verbatim>\<open>print\<close> of the
  processor, holding the values that the message is formatted from.
\<close>

datatype event =
    FileNotFound string
  | ReadFailed string
  | ArgsNotDict string
  | ArgsParseFailed string
  | ErrorProcessing string exn
  | GateCheck string pydict pyval
  | EvalFailed string
  | GenerateFailed exn
  | UnknownDirective string

text \<open>
  The mutable part of a \<^verbatim>\<open>FileProcessor\<close> is \<^verbatim>\<open>current_path\<close>; the processor never
  writes to \<^verbatim>\<open>processed_files\<close> or \<^verbatim>\<open>MAX_SIZE\<close>, and \<^verbatim>\<open>directives\<close> holds the five
  handlers that the constructor registers.  \<open>opened\<close> records the names given to
  \<^verbatim>\<open>open\<close>, in order.
\<close>

record state =
  current_path :: "string list"
  opened :: "string list"
  console :: "event list"

definition emit :: "event \<Rightarrow> state \<Rightarrow> state" where
  "emit e st = st\<lparr>console := console st @ [e]\<rparr>"

text \<open>
  The surroundings of the processor: what \<^verbatim>\<open>open(filename).read()\<close> gives for each name,
  and the built-in functions \<^verbatim>\<open>eval\<close> (\<open>None\<close> when it raises an exception) and
  \<^verbatim>\<open>str\<close>.
\<close>

datatype file_result = Content string | NotFound | Unreadable

record env =
  fs :: "string \<Rightarrow> file_result"
  py_eval :: "string \<Rightarrow> pyval option"
  py_str :: "pyval \<Rightarrow> string"

text \<open>
  A call returns a value, raises an exception, or has not finished when the fuel of the
  expansion loop is used up.
\<close>

datatype 'a outcome = Returned 'a | Raised exn | OutOfFuel

record expansion_context =
  ctx_depth :: int
  ctx_args :: pydict
  ctx_filename :: string

section \<open>The processor\<close>

definition read_file_content :: "env \<Rightarrow> state \<Rightarrow> string \<Rightarrow> string \<times> state" where
  "read_file_content E st filename =
     (let st1 = st\<lparr>opened := opened st @ [filename]\<rparr>
      in case fs E filename of
           Content c \<Rightarrow> (c, st1)
         | NotFound \<Rightarrow> (''[$file '' @ filename @ '']'', emit (FileNotFound filename) st1)
         | Unreadable \<Rightarrow> (''[$file '' @ filename @ '']'', emit (ReadFailed filename) st1))"

text \<open>
  The inner function of \<^verbatim>\<open>_generate_repeated_math_pattern\<close>.  It calls itself with
  \<open>n - 1\<close> until \<open>n\<close> is 0, so below zero the recursion never ends; \<open>None\<close> is the value
  of a call that does not return.  The interpreter's limit on the depth of its call stack
  is taken to be finite but as large as needed: a recursion that ends is run to its end,
  and one that never ends is stopped with a RecursionError, which is how
  \<^verbatim>\<open>_generate_repeated_math_pattern\<close> reads \<open>None\<close>.
\<close>

partial_function (option) build_pattern :: "string \<Rightarrow> string \<Rightarrow> int \<Rightarrow> string option" where
  "build_pattern var_name operation n =
     (if n = 0 then Some (''[VAR '' @ var_name @ ''0]'')
      else Option.bind (build_pattern var_name operation (n - 1))
             (\<lambda>inner. Some (''[MATH [VAR '' @ var_name @ str_int n @ ''] '' @ operation @ '' ''
                                @ inner @ '']'')))"

definition generate_repeated_math_pattern :: "int \<Rightarrow> string \<Rightarrow> string \<Rightarrow> exn + string" where
  "generate_repeated_math_pattern level var_name operation =
     (if level = 0 then Inr (''[VAR '' @ var_name @ ''0]'')
      else case build_pattern var_name operation level of
             Some result \<Rightarrow> Inr result
           | None \<Rightarrow> Inl (RecursionError ''maximum recursion depth exceeded''))"

text \<open>
  The body of the \<^verbatim>\<open>try\<close> of \<^verbatim>\<open>_handle_generate_recursive\<close>, then the handler.  The
  body reads \<^verbatim>\<open>args[3]\<close>, although the handler has only checked for three arguments: with
  exactly three that is an IndexError, caught like every other exception of the body.
\<close>

definition generate_recursive_try :: "string list \<Rightarrow> expansion_context \<Rightarrow> exn + string" where
  "generate_recursive_try argv ctx =
     (case py_int (dict_get (ctx_args ctx) (argv ! 0) (PStr ''0'')) of
        Inl e \<Rightarrow> Inl e
      | Inr level \<Rightarrow>
          if length argv < 4 then Inl IndexError
          else let pattern_type = argv ! 1;
                   var_name = argv ! 2;
                   operation = argv ! 3
               in if pattern_type = ''math''
                  then generate_repeated_math_pattern level var_name operation
                  else Inr (''[$generate_recursive unknown_pattern_type '' @ pattern_type @ '']''))"

definition handle_generate_recursive ::
  "state \<Rightarrow> string list \<Rightarrow> expansion_context \<Rightarrow> pyval outcome \<times> state" where
  "handle_generate_recursive st argv ctx =
     (if length argv < 3 then (Returned (PStr ''[$generate_recursive missing_arguments]''), st)
      else case generate_recursive_try argv ctx of
             Inr result \<Rightarrow> (Returned (PStr result), st)
           | Inl e \<Rightarrow>
               (Returned (PStr (''[$generate_recursive '' @ join '' '' argv @ '']'')),
                emit (GenerateFailed e) st))"

definition handle_arg :: "state \<Rightarrow> string list \<Rightarrow> expansion_context \<Rightarrow> pyval outcome \<times> state" where
  "handle_arg st argv ctx =
     (case argv of
        [] \<Rightarrow> (Returned (PStr ''[# $arg missing_name]''), st)
      | arg_name # _ \<Rightarrow>
          (Returned (dict_get (ctx_args ctx) arg_name (PStr (''[# $arg '' @ arg_name @ '']''))),
           st))"

definition handle_python_eval ::
  "env \<Rightarrow> state \<Rightarrow> string list \<Rightarrow> expansion_context \<Rightarrow> pyval outcome \<times> state" where
  "handle_python_eval E st argv ctx =
     (if argv = [] then (Returned (PStr ''[# $python_eval missing_expression]''), st)
      else let expression = join '' '' argv
           in (case py_eval E expression of
                 Some result \<Rightarrow> (Returned (PStr (py_str E result)), st)
               | None \<Rightarrow>
                   (Returned (PStr (''[# $python_eval '' @ expression @ '']'')),
                    emit (EvalFailed expression) st)))"

text \<open>
  The structured-argument literal of \<^verbatim>\<open>file\<close> and \<^verbatim>\<open>fileif\<close>: evaluated, and kept only
  if it is a dictionary.
\<close>

definition eval_file_args :: "env \<Rightarrow> state \<Rightarrow> string \<Rightarrow> string \<Rightarrow> pydict option \<times> state" where
  "eval_file_args E st filename literal =
     (case py_eval E literal of
        Some (PDict d) \<Rightarrow> (Some d, st)
      | Some _ \<Rightarrow> (None, emit (ArgsNotDict filename) st)
      | None \<Rightarrow> (None, emit (ArgsParseFailed filename) st))"

text \<open>
  The handlers that include a file call back into the processor; \<open>recurse\<close> stands for
  \<^verbatim>\<open>self.process_file_recursive\<close>.
\<close>

type_synonym recursive_call =
  "state \<Rightarrow> string \<Rightarrow> pydict option \<Rightarrow> int \<Rightarrow> string outcome \<times> state"

text \<open>
  The \<^verbatim>\<open>try\<close> block that ends both handlers: the result of the recursive call, or the
  placeholder of the handler when the call raises CircularReferenceError or RecursionError.
  Any other exception is not caught here.
\<close>

definition try_include ::
  "recursive_call \<Rightarrow> state \<Rightarrow> string \<Rightarrow> pydict option \<Rightarrow> int \<Rightarrow> string
     \<Rightarrow> pyval outcome \<times> state" where
  "try_include recurse st filename file_args depth placeholder =
     (case recurse st filename file_args depth of
        (Returned text, st2) \<Rightarrow> (Returned (PStr text), st2)
      | (Raised (CircularReferenceError msg), st2) \<Rightarrow>
          (Returned (PStr placeholder),
           emit (ErrorProcessing filename (CircularReferenceError msg)) st2)
      | (Raised (RecursionError msg), st2) \<Rightarrow>
          (Returned (PStr placeholder),
           emit (ErrorProcessing filename (RecursionError msg)) st2)
      | (Raised e, st2) \<Rightarrow> (Raised e, st2)
      | (OutOfFuel, st2) \<Rightarrow> (OutOfFuel, st2))"

definition handle_file ::
  "recursive_call \<Rightarrow> env \<Rightarrow> state \<Rightarrow> string list \<Rightarrow> expansion_context
     \<Rightarrow> pyval outcome \<times> state" where
  "handle_file recurse E st argv ctx =
     (case argv of
        [] \<Rightarrow> (Returned (PStr ''[$file missing_filename]''), st)
      | filename # rest_args \<Rightarrow>
          let (file_args, st1) =
                (case rest_args of
                   [] \<Rightarrow> (None, st)
                 | literal # _ \<Rightarrow> eval_file_args E st filename literal)
          in try_include recurse st1 filename file_args (ctx_depth ctx)
               (''[# $file '' @ filename @ '': infinite loop]''))"

text \<open>
  \<^verbatim>\<open>_handle_fileif\<close> reads \<^verbatim>\<open>args[1]\<close> after checking only that \<^verbatim>\<open>args\<close> is not empty:
  with one argument that is an IndexError, raised outside any \<^verbatim>\<open>try\<close>.
\<close>

definition handle_fileif ::
  "recursive_call \<Rightarrow> env \<Rightarrow> state \<Rightarrow> string list \<Rightarrow> expansion_context
     \<Rightarrow> pyval outcome \<times> state" where
  "handle_fileif recurse E st argv ctx =
     (case argv of
        [] \<Rightarrow> (Returned (PStr ''[# $file missing_filename]''), st)
      | [filename] \<Rightarrow> (Raised IndexError, st)
      | filename # check # rest_args \<Rightarrow>
          let gate = dict_get (ctx_args ctx) check (PBool False);
              st0 = emit (GateCheck check (ctx_args ctx) gate) st
          in if \<not> truthy gate then (Returned (PStr []), st0)
             else
               let (file_args, st1) =
                     (case rest_args of
                        [] \<Rightarrow> (None, st0)
                      | literal # _ \<Rightarrow> eval_file_args E st0 filename literal)
               in try_include recurse st1 filename file_args (ctx_depth ctx)
                    (''[# $file '' @ filename @ '']''))"

text \<open>The registry \<^verbatim>\<open>self.directives\<close> as the constructor fills it, and the call of a handler.\<close>

datatype handler = HFile | HFileif | HArg | HPythonEval | HGenerateRecursive

definition directives :: "string \<Rightarrow> handler option" where
  "directives name =
     (if name = ''file'' then Some HFile
      else if name = ''fileif'' then Some HFileif
      else if name = ''arg'' then Some HArg
      else if name = ''python_eval'' then Some HPythonEval
      else if name = ''generate_recursive'' then Some HGenerateRecursive
      else None)"

fun call_handler ::
  "handler \<Rightarrow> recursive_call \<Rightarrow> env \<Rightarrow> state \<Rightarrow> string list \<Rightarrow> expansion_context
     \<Rightarrow> pyval outcome \<times> state" where
  "call_handler HFile recurse E st argv ctx = handle_file recurse E st argv ctx"
| "call_handler HFileif recurse E st argv ctx = handle_fileif recurse E st argv ctx"
| "call_handler HArg recurse E st argv ctx = handle_arg st argv ctx"
| "call_handler HPythonEval recurse E st argv ctx = handle_python_eval E st argv ctx"
| "call_handler HGenerateRecursive recurse E st argv ctx = handle_generate_recursive st argv ctx"

text \<open>
  One round of the \<^verbatim>\<open>while\<close> loop up to the new content: the replacement comes from the
  handler, or is the matched text when no handler is registered; concatenating text with
  a replacement that is not text is a TypeError.
\<close>

definition replacement_for ::
  "recursive_call \<Rightarrow> env \<Rightarrow> state \<Rightarrow> expansion_context \<Rightarrow> DirectiveMatch \<Rightarrow> pyval outcome \<times> state" where
  "replacement_for recurse E st ctx m =
     (case directives (directive_name m) of
        Some h \<Rightarrow> call_handler h recurse E st (args m) ctx
      | None \<Rightarrow> (Returned (PStr (full_match m)), emit (UnknownDirective (directive_name m)) st))"

definition splice :: "string \<Rightarrow> DirectiveMatch \<Rightarrow> string \<Rightarrow> string" where
  "splice content m replacement = take (start m) content @ replacement @ drop (end_pos m) content"

text \<open>
  \<^verbatim>\<open>process_file_recursive\<close> and its \<^verbatim>\<open>while True\<close> loop.  The loop has no bound in the
  source, so both take fuel: every call and every round of the loop spends one unit, and
  \<open>OutOfFuel\<close> is the answer when none is left.
\<close>

fun process_file_recursive ::
  "nat \<Rightarrow> env \<Rightarrow> state \<Rightarrow> string \<Rightarrow> pydict option \<Rightarrow> int \<Rightarrow> string outcome \<times> state"
and expand_loop ::
  "nat \<Rightarrow> env \<Rightarrow> state \<Rightarrow> expansion_context \<Rightarrow> string \<Rightarrow> string outcome \<times> state"
where
  "process_file_recursive 0 E st filename file_args depth = (OutOfFuel, st)"
| "process_file_recursive (Suc n) E st filename file_args depth =
     (if depth > 100
      then (Raised (RecursionError ''Maximum recursion depth exceeded''), st)
      else if filename \<in> set (current_path st)
      then (Raised (CircularReferenceError
                      (''Circular reference detected: ''
                       @ join '' -> '' (current_path st @ [filename]))), st)
      else
        let st1 = st\<lparr>current_path := current_path st @ [filename]\<rparr>;
            (content, st2) = read_file_content E st1 filename;
            ctx = \<lparr> ctx_depth = depth + 1,
                    ctx_args = (case file_args of None \<Rightarrow> [] | Some d \<Rightarrow> d),
                    ctx_filename = filename \<rparr>
        in case expand_loop n E st2 ctx content of
             (Returned text, st3) \<Rightarrow>
               (Returned text, st3\<lparr>current_path := butlast (current_path st3)\<rparr>)
           | (Raised e, st3) \<Rightarrow> (Raised e, st3)
           | (OutOfFuel, st3) \<Rightarrow> (OutOfFuel, st3))"
| "expand_loop 0 E st ctx content = (OutOfFuel, st)"
| "expand_loop (Suc n) E st ctx content =
     (case parse_directive content of
        None \<Rightarrow> (Returned content, st)
      | Some m \<Rightarrow>
          (case replacement_for (process_file_recursive n E) E st ctx m of
             (Returned (PStr replacement), st1) \<Rightarrow>
               expand_loop n E st1 ctx (splice content m replacement)
           | (Returned _, st1) \<Rightarrow> (Raised TypeError, st1)
           | (Raised e, st1) \<Rightarrow> (Raised e, st1)
           | (OutOfFuel, st1) \<Rightarrow> (OutOfFuel, st1)))"

definition initial_state :: state where
  "initial_state = \<lparr> current_path = [], opened = [], console = [] \<rparr>"

section \<open>Notions used in the statements\<close>

text \<open>
  \<open>extends rec rec'\<close>: wherever the call \<open>rec\<close> finishes, \<open>rec'\<close> gives the same answer.
\<close>

definition extends :: "recursive_call \<Rightarrow> recursive_call \<Rightarrow> bool" where
  "extends rec rec' =
     (\<forall>st f a d. fst (rec st f a d) \<noteq> OutOfFuel \<longrightarrow> rec' st f a d = rec st f a d)"

text \<open>
  The two conditions that the \<^verbatim>\<open>file\<close> and \<^verbatim>\<open>fileif\<close> handlers catch: DepthExceeded
  (RecursionError) and CircularReference.
\<close>

fun unwinds :: "exn \<Rightarrow> bool" where
  "unwinds (RecursionError msg) = True"
| "unwinds (CircularReferenceError msg) = True"
| "unwinds e = False"


section \<open>Example surroundings\<close>

text \<open>
  A file system given by a list of names and contents (every other name is not found), with
  an evaluator that knows one dictionary literal and fails on every other expression.
\<close>

definition example_eval :: "string \<Rightarrow> pyval option" where
  "example_eval s = (if s = ''{'y':'2'}'' then Some (PDict [(PStr ''y'', PStr ''2'')]) else None)"

definition files_env :: "(string \<times> string) list \<Rightarrow> env" where
  "files_env files =
     \<lparr> fs = (\<lambda>name. case map_of files name of Some c \<Rightarrow> Content c | None \<Rightarrow> NotFound),
       py_eval = example_eval,
       py_str = (\<lambda>v. []) \<rparr>"

text \<open>
  A chain of 101 sources named \<open>a\<close>, \<open>aa\<close>, \<open>aaa\<close> and so on: each includes the source
  whose name is one letter longer, and no source has a name of 102 letters.
\<close>

definition chain_env :: env where
  "chain_env =
     \<lparr> fs = (\<lambda>name. if name \<noteq> [] \<and> length name \<le> 101 \<and> (\<forall>c \<in> set name. c = CHR ''a'')
                    then Content (''[$file '' @ name @ ''a]'')
                    else NotFound),
       py_eval = example_eval,
       py_str = (\<lambda>v. []) \<rparr>"

text \<open>\<open>first_is xs x\<close>: the list \<open>xs\<close> starts with \<open>x\<close>.\<close>

definition first_is :: "'a list \<Rightarrow> 'a \<Rightarrow> bool" where
  "first_is xs x = (case xs of [] \<Rightarrow> False | y # _ \<Rightarrow> y = x)"

text \<open>
  A plain name: not empty, without white space, brackets or braces.  Such a name is one
  bare argument of a directive.
\<close>

definition plain_name :: "string \<Rightarrow> bool" where
  "plain_name b =
     (b \<noteq> [] \<and> (\<forall>c \<in> set b. \<not> is_space c \<and> c \<noteq> CHR ''['' \<and> c \<noteq> CHR '']''
                              \<and> c \<noteq> CHR ''{'' \<and> c \<noteq> CHR ''}''))"

text \<open>
  \<open>has_marker s\<close>: the two characters that open a directive occur next to each other
  somewhere in \<open>s\<close>.
\<close>

fun has_marker :: "string \<Rightarrow> bool" where
  "has_marker (c # d # r) = ((c = CHR ''['' \<and> d = CHR ''$'') \<or> has_marker (d # r))"
| "has_marker s = False"

text \<open>The placeholder for the source of 102 letters, which the chain ends in.\<close>

definition chain_placeholder :: string where
  "chain_placeholder = ''[# $file '' @ replicate 102 (CHR ''a'') @ '': infinite loop]''"

section \<open>The pattern of \<^verbatim>\<open>generate_recursive\<close> as it is specified\<close>


section \<open>Facts about the directive pattern\<close>

text \<open>Every match splits the text it is tried on into the matched part and the rest.\<close>

lemma in_concat_map_prod:
  "x \<in> set (concat (map (\<lambda>(u, r). f u r) xs)) \<longleftrightarrow> (\<exists>u r. (u, r) \<in> set xs \<and> x \<in> set (f u r))"
  by (induction xs) auto

lemma in_map_prod:
  "x \<in> set (map (\<lambda>(u, r). f u r) xs) \<longleftrightarrow> (\<exists>u r. (u, r) \<in> set xs \<and> x = f u r)"
  by (induction xs) auto

lemma rx_match_round:
  assumes "(u, r) \<in> set (concat (map (\<lambda>(u1, r1). if length r1 < length s
                             then map (\<lambda>(v, r'). (u1 @ v, r')) (rx_match b r1)
                             else [])
                 (rx_match a s)))"
  obtains u1 r1 v where "(u1, r1) \<in> set (rx_match a s)" "length r1 < length s"
        "(v, r) \<in> set (rx_match b r1)" "u = u1 @ v"
proof -
  from assms obtain u1 r1 where m: "(u1, r1) \<in> set (rx_match a s)"
      and i: "(u, r) \<in> set (if length r1 < length s
                      then map (\<lambda>(v, r'). (u1 @ v, r')) (rx_match b r1) else [])"
    unfolding in_concat_map_prod by blast
  from i have l: "length r1 < length s" by (simp split: if_splits)
  with i have "(u, r) \<in> set (map (\<lambda>(v, r'). (u1 @ v, r')) (rx_match b r1))" by simp
  then obtain v r' where "(v, r') \<in> set (rx_match b r1)" "(u, r) = (u1 @ v, r')"
    unfolding in_map_prod by blast
  then show thesis using that [OF m l, of v] by simp
qed

lemma rx_match_Seq_cases:
  assumes "(u, r) \<in> set (rx_match (Seq a b) s)"
  obtains u1 r1 v where "(u1, r1) \<in> set (rx_match a s)" "(v, r) \<in> set (rx_match b r1)"
    "u = u1 @ v"
proof -
  from assms obtain u1 r1 where m: "(u1, r1) \<in> set (rx_match a s)"
      and i: "(u, r) \<in> set (map (\<lambda>(v, r'). (u1 @ v, r')) (rx_match b r1))"
    unfolding rx_match.simps in_concat_map_prod by blast
  then obtain v r' where "(v, r') \<in> set (rx_match b r1)" "(u, r) = (u1 @ v, r')"
    unfolding in_map_prod by blast
  then show thesis using that [OF m, of v] by simp
qed

lemma rx_match_Sym_cases:
  assumes "(u, r) \<in> set (rx_match (Sym p) s)"
  obtains c where "s = c # r" "u = [c]" "p c"
  using assms by (auto simp: rx_match.simps split: list.splits if_splits)

lemma rx_match_sound: "(u, r) \<in> set (rx_match a s) \<Longrightarrow> s = u @ r"
proof (induction a s arbitrary: u r rule: rx_match.induct)
  case (1 p s)
  then show ?case by (auto elim: rx_match_Sym_cases)
next
  case (2 a b s)
  from "2.prems" obtain u1 r1 v where m: "(u1, r1) \<in> set (rx_match a s)"
    "(v, r) \<in> set (rx_match b r1)" "u = u1 @ v" by (rule rx_match_Seq_cases)
  from "2.IH"(1) [OF m(1)] "2.IH"(2) [OF m(1) _ m(2)] m(3) show ?case by simp
next
  case (3 a b s)
  then show ?case by (auto simp: rx_match.simps)
next
  case (4 a s)
  from "4.prems" have "(u, r) = ([], s) \<or> (u, r) \<in> set (concat (map (\<lambda>(u1, r1). if length r1 < length s
                             then map (\<lambda>(v, r'). (u1 @ v, r')) (rx_match (Star a) r1)
                             else []) (rx_match a s)))"
    by (subst (asm) rx_match.simps) auto
  then show ?case
  proof
    assume "(u, r) = ([], s)"
    then show ?thesis by simp
  next
    assume "(u, r) \<in> set (concat (map (\<lambda>(u1, r1). if length r1 < length s
                             then map (\<lambda>(v, r'). (u1 @ v, r')) (rx_match (Star a) r1)
                             else []) (rx_match a s)))"
    then obtain u1 r1 v where round: "(u1, r1) \<in> set (rx_match a s)" "length r1 < length s"
        "(v, r) \<in> set (rx_match (Star a) r1)" "u = u1 @ v" by (rule rx_match_round)
    from "4.IH"(1) [OF round(1)] have "s = u1 @ r1" .
    moreover from "4.IH"(2) [OF round(1) _ round(2) round(3)] have "r1 = v @ r" by simp
    ultimately show ?thesis using round(4) by simp
  qed
next
  case (5 a s)
  from "5.prems" have "(u, r) = ([], s) \<or> (u, r) \<in> set (concat (map (\<lambda>(u1, r1). if length r1 < length s
                             then map (\<lambda>(v, r'). (u1 @ v, r')) (rx_match (LazyStar a) r1)
                             else []) (rx_match a s)))"
    by (subst (asm) rx_match.simps) auto
  then show ?case
  proof
    assume "(u, r) = ([], s)"
    then show ?thesis by simp
  next
    assume "(u, r) \<in> set (concat (map (\<lambda>(u1, r1). if length r1 < length s
                             then map (\<lambda>(v, r'). (u1 @ v, r')) (rx_match (LazyStar a) r1)
                             else []) (rx_match a s)))"
    then obtain u1 r1 v where round: "(u1, r1) \<in> set (rx_match a s)" "length r1 < length s"
        "(v, r) \<in> set (rx_match (LazyStar a) r1)" "u = u1 @ v" by (rule rx_match_round)
    from "5.IH"(1) [OF round(1)] have "s = u1 @ r1" .
    moreover from "5.IH"(2) [OF round(1) _ round(2) round(3)] have "r1 = v @ r" by simp
    ultimately show ?thesis using round(4) by simp
  qed
qed

lemma directive_at_sound:
  assumes "(name, g2, rest) \<in> set (directive_at s)"
  shows "s = ''[$'' @ name @ g2 @ '']'' @ rest"
proof -
  from assms obtain u0 r0 where
    a: "(u0, r0) \<in> set (rx_match (Seq (Lit CHR ''['') (Lit CHR ''$'')) s)" and
    a': "(name, g2, rest) \<in> set (concat (map (\<lambda>(name, r1).
         concat (map (\<lambda>(g2, r2).
           map (\<lambda>(u3, r3). (name, g2, r3)) (rx_match (Lit CHR '']'') r2))
           (rx_match (Star arg_rx) r1)))
         (rx_match (Plus (Sym is_word)) r0)))"
    unfolding directive_at_def in_concat_map_prod by blast
  from a' obtain n1 r1 where
    b: "(n1, r1) \<in> set (rx_match (Plus (Sym is_word)) r0)" and
    b': "(name, g2, rest) \<in> set (concat (map (\<lambda>(g2, r2).
           map (\<lambda>(u3, r3). (n1, g2, r3)) (rx_match (Lit CHR '']'') r2))
           (rx_match (Star arg_rx) r1)))"
    unfolding in_concat_map_prod by blast
  from b' obtain g r2 where
    c: "(g, r2) \<in> set (rx_match (Star arg_rx) r1)" and
    c': "(name, g2, rest) \<in> set (map (\<lambda>(u3, r3). (n1, g, r3)) (rx_match (Lit CHR '']'') r2))"
    unfolding in_concat_map_prod by blast
  from c' obtain u3 r3 where
    d: "(u3, r3) \<in> set (rx_match (Lit CHR '']'') r2)" and d': "(name, g2, rest) = (n1, g, r3)"
    unfolding in_map_prod by blast
  from a obtain x y z where "(x, z) \<in> set (rx_match (Lit CHR ''['') s)"
    "(y, r0) \<in> set (rx_match (Lit CHR ''$'') z)" "u0 = x @ y"
    by (rule rx_match_Seq_cases)
  then have u0: "u0 = ''[$''"
    unfolding Lit_def by (auto elim!: rx_match_Sym_cases)
  from d have u3: "u3 = '']''"
    unfolding Lit_def by (auto elim!: rx_match_Sym_cases)
  from rx_match_sound [OF a] rx_match_sound [OF b] rx_match_sound [OF c] rx_match_sound [OF d]
  show ?thesis using u0 u3 d' by simp
qed

lemma re_search_sound:
  "re_search i s = Some (j, name, g2) \<Longrightarrow>
   \<exists>pre post. s = pre @ ''[$'' @ name @ g2 @ '']'' @ post \<and> j = i + length pre"
proof (induction s arbitrary: i)
  case Nil
  then obtain rest where "(name, g2, rest) \<in> set (directive_at [])"
    by (auto split: list.splits)
  from directive_at_sound [OF this] show ?case by simp
next
  case (Cons c cs)
  show ?case
  proof (cases "directive_at (c # cs)")
    case Nil
    with Cons.prems have "re_search (Suc i) cs = Some (j, name, g2)" by simp
    from Cons.IH [OF this] obtain pre post where
      "cs = pre @ ''[$'' @ name @ g2 @ '']'' @ post" "j = Suc i + length pre" by blast
    then have "c # cs = (c # pre) @ ''[$'' @ name @ g2 @ '']'' @ post \<and> j = i + length (c # pre)"
      by simp
    then show ?thesis by blast
  next
    case (Cons x xs)
    obtain n' g' rest where x: "x = (n', g', rest)" by (cases x)
    with Cons Cons.prems have eq: "j = i" "n' = name" "g' = g2" by simp_all
    from Cons x eq have "(name, g2, rest) \<in> set (directive_at (c # cs))" by simp
    from directive_at_sound [OF this] eq
    have "c # cs = [] @ ''[$'' @ name @ g2 @ '']'' @ rest \<and> j = i + length ([] :: string)"
      by simp
    then show ?thesis by blast
  qed
qed

lemma parse_directive_span:
  assumes "parse_directive content = Some m"
  shows "\<exists>pre post. content = pre @ full_match m @ post \<and> start m = length pre
           \<and> end_pos m = length pre + length (full_match m)"
proof -
  from assms obtain i name g2 where s: "re_search 0 content = Some (i, name, g2)"
    and fm: "full_match m = ''[$'' @ name @ g2 @ '']''"
    and st: "start m = i" and en: "end_pos m = i + length (''[$'' @ name @ g2 @ '']'')"
    by (auto simp: parse_directive_def Let_def split: option.splits)
  from re_search_sound [OF s] obtain pre post where
    "content = pre @ ''[$'' @ name @ g2 @ '']'' @ post" "i = length pre" by auto
  with fm st en show ?thesis by auto
qed

lemma splice_span:
  assumes "parse_directive content = Some m"
  shows "\<exists>pre post. content = pre @ full_match m @ post
           \<and> (\<forall>r. splice content m r = pre @ r @ post)"
proof -
  from parse_directive_span [OF assms] obtain pre post where
    c: "content = pre @ full_match m @ post" and s: "start m = length pre"
    and e: "end_pos m = length pre + length (full_match m)" by blast
  have "splice content m r = pre @ r @ post" for r
  proof -
    have "splice (pre @ full_match m @ post) m r = pre @ r @ post"
      by (simp add: splice_def s e)
    with c show ?thesis by simp
  qed
  with c show ?thesis by blast
qed

lemma splice_full_match:
  "parse_directive content = Some m \<Longrightarrow> splice content m (full_match m) = content"
  using splice_span [of content m] by metis

section \<open>Fuel\<close>

text \<open>
  More fuel never changes an answer: a call that has finished with some amount of fuel
  gives the same result and the same state with any larger amount.
\<close>

lemma try_include_extends:
  assumes "extends rec rec'" "fst (try_include rec st f a d ph) \<noteq> OutOfFuel"
  shows "try_include rec' st f a d ph = try_include rec st f a d ph"
proof -
  from assms(2) have "fst (rec st f a d) \<noteq> OutOfFuel"
    by (auto simp: try_include_def split: prod.splits outcome.splits exn.splits)
  with assms(1) have "rec' st f a d = rec st f a d" by (simp add: extends_def)
  then show ?thesis by (simp add: try_include_def)
qed

lemma handle_file_extends:
  assumes "extends rec rec'" "fst (handle_file rec E st argv ctx) \<noteq> OutOfFuel"
  shows "handle_file rec' E st argv ctx = handle_file rec E st argv ctx"
  using assms(2)
  by (auto simp: handle_file_def try_include_extends [OF assms(1)]
      split: list.splits prod.splits)

lemma handle_fileif_extends:
  assumes "extends rec rec'" "fst (handle_fileif rec E st argv ctx) \<noteq> OutOfFuel"
  shows "handle_fileif rec' E st argv ctx = handle_fileif rec E st argv ctx"
  using assms(2)
  by (auto simp: handle_fileif_def Let_def try_include_extends [OF assms(1)]
      split: list.splits prod.splits if_splits)

lemma replacement_for_extends:
  assumes "extends rec rec'" "fst (replacement_for rec E st ctx m) \<noteq> OutOfFuel"
  shows "replacement_for rec' E st ctx m = replacement_for rec E st ctx m"
proof (cases "directives (directive_name m)")
  case None
  then show ?thesis by (simp add: replacement_for_def)
next
  case (Some h)
  with assms show ?thesis
    by (cases h) (simp_all add: replacement_for_def handle_file_extends handle_fileif_extends)
qed

lemma fuel_step:
  "(\<forall>E st f a d. fst (process_file_recursive n E st f a d) \<noteq> OutOfFuel \<longrightarrow>
       process_file_recursive (Suc n) E st f a d = process_file_recursive n E st f a d)
   \<and> (\<forall>E st ctx c. fst (expand_loop n E st ctx c) \<noteq> OutOfFuel \<longrightarrow>
       expand_loop (Suc n) E st ctx c = expand_loop n E st ctx c)"
proof (induction n)
  case 0
  show ?case by simp
next
  case (Suc n)
  then have IHp: "\<And>E st f a d. fst (process_file_recursive n E st f a d) \<noteq> OutOfFuel \<Longrightarrow>
       process_file_recursive (Suc n) E st f a d = process_file_recursive n E st f a d"
    and IHl: "\<And>E st ctx c. fst (expand_loop n E st ctx c) \<noteq> OutOfFuel \<Longrightarrow>
       expand_loop (Suc n) E st ctx c = expand_loop n E st ctx c"
    by blast+
  have ext: "extends (process_file_recursive n E) (process_file_recursive (Suc n) E)" for E
    unfolding extends_def using IHp by blast
  have p: "process_file_recursive (Suc (Suc n)) E st f a d = process_file_recursive (Suc n) E st f a d"
    if fin: "fst (process_file_recursive (Suc n) E st f a d) \<noteq> OutOfFuel" for E st f a d
  proof (cases "d > 100 \<or> f \<in> set (current_path st)")
    case True
    then show ?thesis by auto
  next
    case False
    obtain content st2 where r: "read_file_content E (st\<lparr>current_path := current_path st @ [f]\<rparr>) f = (content, st2)"
      by (cases "read_file_content E (st\<lparr>current_path := current_path st @ [f]\<rparr>) f")
    define ctx where "ctx = \<lparr> ctx_depth = d + 1,
                    ctx_args = (case a of None \<Rightarrow> [] | Some d \<Rightarrow> d),
                    ctx_filename = f \<rparr>"
    from fin False r have "fst (expand_loop n E st2 ctx content) \<noteq> OutOfFuel"
      by (auto simp: ctx_def split: prod.splits outcome.splits)
    from IHl [OF this] False r show ?thesis
      by (simp add: ctx_def)
  qed
  have l: "expand_loop (Suc (Suc n)) E st ctx c = expand_loop (Suc n) E st ctx c"
    if fin: "fst (expand_loop (Suc n) E st ctx c) \<noteq> OutOfFuel" for E st ctx c
  proof (cases "parse_directive c")
    case None
    then show ?thesis by simp
  next
    case (Some m)
    from fin Some have f1: "fst (replacement_for (process_file_recursive n E) E st ctx m) \<noteq> OutOfFuel"
      by (auto split: prod.splits outcome.splits)
    from replacement_for_extends [OF ext f1]
    have eq: "replacement_for (process_file_recursive (Suc n) E) E st ctx m
            = replacement_for (process_file_recursive n E) E st ctx m" .
    obtain r st1 where rr: "replacement_for (process_file_recursive n E) E st ctx m = (r, st1)"
      by (cases "replacement_for (process_file_recursive n E) E st ctx m")
    show ?thesis
    proof (cases r)
      case (Returned v)
      show ?thesis
      proof (cases v)
        case (PStr t)
        with fin Some rr Returned have "fst (expand_loop n E st1 ctx (splice c m t)) \<noteq> OutOfFuel"
          by simp
        from IHl [OF this] Some rr Returned PStr eq show ?thesis by simp
      qed (use Some rr Returned eq in simp_all)
    qed (use Some rr eq in simp_all)
  qed
  from p l show ?case by blast
qed

lemma fuel_mono:
  assumes "n \<le> m"
  shows "fst (process_file_recursive n E st f a d) \<noteq> OutOfFuel \<Longrightarrow>
           process_file_recursive m E st f a d = process_file_recursive n E st f a d"
    and "fst (expand_loop n E st ctx c) \<noteq> OutOfFuel \<Longrightarrow>
           expand_loop m E st ctx c = expand_loop n E st ctx c"
  using assms
proof (induction m)
  case 0
  { case 1 then show ?case by simp }
  { case 2 then show ?case by simp }
next
  case (Suc m)
  { case 1
    show ?case
    proof (cases "n = Suc m")
      case False
      with 1 have le: "n \<le> m" by simp
      from Suc.IH(1) [OF 1(1) le] 1(1) fuel_step [of m] show ?thesis by auto
    qed simp }
  { case 2
    show ?case
    proof (cases "n = Suc m")
      case False
      with 2 have le: "n \<le> m" by simp
      from Suc.IH(2) [OF 2(1) le] 2(1) fuel_step [of m] show ?thesis by auto
    qed simp }
qed

section \<open>Which exceptions leave the expansion\<close>

text \<open>
  A handler never lets DepthExceeded or CircularReference through, so the loop never
  raises them; a call of the expansion raises them only from its two checks at entry.
\<close>

lemma try_include_catches:
  "fst (try_include rec st f a d ph) = Raised e \<Longrightarrow> \<not> unwinds e"
  by (auto simp: try_include_def split: prod.splits outcome.splits exn.splits)

lemma handle_file_catches:
  "fst (handle_file rec E st argv ctx) = Raised e \<Longrightarrow> \<not> unwinds e"
  by (auto simp: handle_file_def dest: try_include_catches split: list.splits prod.splits)

lemma handle_fileif_catches:
  "fst (handle_fileif rec E st argv ctx) = Raised e \<Longrightarrow> \<not> unwinds e"
  by (auto simp: handle_fileif_def Let_def dest: try_include_catches
      split: list.splits prod.splits if_splits)

lemma replacement_for_catches:
  assumes "fst (replacement_for rec E st ctx m) = Raised e"
  shows "\<not> unwinds e"
proof (cases "directives (directive_name m)")
  case None
  with assms show ?thesis by (simp add: replacement_for_def)
next
  case (Some h)
  with assms show ?thesis
    by (cases h)
       (auto simp: replacement_for_def handle_arg_def handle_python_eval_def Let_def
          handle_generate_recursive_def
          dest: handle_file_catches handle_fileif_catches
          split: list.splits option.splits if_splits sum.splits)
qed

lemma expand_loop_catches:
  "fst (expand_loop n E st ctx c) = Raised e \<Longrightarrow> \<not> unwinds e"
proof (induction n arbitrary: st c)
  case 0
  then show ?case by simp
next
  case (Suc n)
  show ?case
  proof (cases "parse_directive c")
    case None
    with Suc.prems show ?thesis by simp
  next
    case (Some m)
    obtain r st1 where rr: "replacement_for (process_file_recursive n E) E st ctx m = (r, st1)"
      by (cases "replacement_for (process_file_recursive n E) E st ctx m")
    show ?thesis
    proof (cases r)
      case (Returned v)
      show ?thesis
      proof (cases v)
        case (PStr t)
        with Suc.prems Some rr Returned
        have "fst (expand_loop n E st1 ctx (splice c m t)) = Raised e" by simp
        then show ?thesis by (rule Suc.IH)
      qed (use Suc.prems Some rr Returned in auto)
    next
      case (Raised e')
      with Suc.prems Some rr have "e' = e" by simp
      with rr Raised replacement_for_catches [of "process_file_recursive n E" E st ctx m e]
      show ?thesis by simp
    next
      case OutOfFuel
      with Suc.prems Some rr show ?thesis by simp
    qed
  qed
qed

lemma process_file_recursive_raises:
  assumes "fst (process_file_recursive (Suc n) E st f a d) = Raised e" "unwinds e"
  shows "(d > 100 \<and> e = RecursionError ''Maximum recursion depth exceeded'')
         \<or> (d \<le> 100 \<and> f \<in> set (current_path st)
             \<and> e = CircularReferenceError (''Circular reference detected: ''
                       @ join '' -> '' (current_path st @ [f])))"
proof (cases "d > 100 \<or> f \<in> set (current_path st)")
  case True
  with assms(1) show ?thesis by (auto split: if_splits)
next
  case False
  obtain content st2 where r: "read_file_content E (st\<lparr>current_path := current_path st @ [f]\<rparr>) f = (content, st2)"
    by (cases "read_file_content E (st\<lparr>current_path := current_path st @ [f]\<rparr>) f")
  define ctx where "ctx = \<lparr> ctx_depth = d + 1,
                    ctx_args = (case a of None \<Rightarrow> [] | Some d \<Rightarrow> d),
                    ctx_filename = f \<rparr>"
  from assms(1) False r have "fst (expand_loop n E st2 ctx content) = Raised e"
    by (auto simp: ctx_def split: prod.splits outcome.splits)
  from expand_loop_catches [OF this] assms(2) show ?thesis by simp
qed

lemma depth_exceeded_exactly:
  "(\<exists>msg. fst (process_file_recursive (Suc n) E st f a d) = Raised (RecursionError msg))
     \<longleftrightarrow> d > 100"
proof
  assume "\<exists>msg. fst (process_file_recursive (Suc n) E st f a d) = Raised (RecursionError msg)"
  then obtain msg where "fst (process_file_recursive (Suc n) E st f a d) = Raised (RecursionError msg)"
    by blast
  from process_file_recursive_raises [OF this] show "d > 100" by auto
next
  assume "d > 100"
  then show "\<exists>msg. fst (process_file_recursive (Suc n) E st f a d) = Raised (RecursionError msg)"
    by simp
qed

section \<open>The call stack\<close>

text \<open>
  A call that returns has popped what it pushed, and the two conditions raised at entry
  are raised before anything is pushed.
\<close>

lemma current_path_emit [simp]: "current_path (emit e st) = current_path st"
  by (simp add: emit_def)

lemma opened_emit [simp]: "opened (emit e st) = opened st"
  by (simp add: emit_def)

lemma current_path_eval_file_args [simp]:
  "current_path (snd (eval_file_args E st f l)) = current_path st"
  by (simp add: eval_file_args_def split: option.splits pyval.splits)

lemma current_path_read_file_content [simp]:
  "current_path (snd (read_file_content E st f)) = current_path st"
  by (simp add: read_file_content_def Let_def split: file_result.splits)






section \<open>What the matcher reports first\<close>

text \<open>
  The first match of a sequence, an alternative and a repetition, from the first matches
  of their parts; then the first match of the directive pattern on a \<^verbatim>\<open>file\<close> directive
  with one plain argument, and the absence of any match in a text without the opening
  characters.
\<close>

lemma first_is_iff: "first_is xs x \<longleftrightarrow> (\<exists>t. xs = x # t)"
  by (cases xs) (auto simp: first_is_def)

lemma first_is_Cons [simp]: "first_is (y # ys) x \<longleftrightarrow> y = x"
  by (simp add: first_is_def)

lemma first_is_Nil [simp]: "\<not> first_is [] x"
  by (simp add: first_is_def)


lemma rx_Sym_Cons: "rx_match (Sym p) (c # s) = (if p c then [([c], s)] else [])"
  by (simp add: rx_match.simps)

lemma rx_Sym_Nil: "rx_match (Sym p) [] = []"
  by (simp add: rx_match.simps)

lemma rx_Sym_fail: "s = [] \<or> \<not> p (hd s) \<Longrightarrow> rx_match (Sym p) s = []"
  by (cases s) (auto simp: rx_match.simps)

lemma rx_Seq_first:
  assumes "first_is (rx_match a s) (u, r)" "first_is (rx_match b r) (v, r')"
  shows "first_is (rx_match (Seq a b) s) (u @ v, r')"
proof -
  from assms obtain t t' where "rx_match a s = (u, r) # t" "rx_match b r = (v, r') # t'"
    unfolding first_is_iff by blast
  then show ?thesis by (simp add: rx_match.simps)
qed

lemma rx_Seq_fail: "rx_match a s = [] \<Longrightarrow> rx_match (Seq a b) s = []"
  by (simp add: rx_match.simps)


lemma rx_Alt_right: "rx_match a s = [] \<Longrightarrow> rx_match (Alt a b) s = rx_match b s"
  by (simp add: rx_match.simps)

lemma rx_Star_stop: "rx_match a s = [] \<Longrightarrow> rx_match (Star a) s = [([], s)]"
  by (simp add: rx_match.simps)

lemma rx_Star_round:
  assumes "first_is (rx_match a s) (u, r)" "length r < length s"
    "first_is (rx_match (Star a) r) (v, r')"
  shows "first_is (rx_match (Star a) s) (u @ v, r')"
proof -
  from assms obtain t t' where "rx_match a s = (u, r) # t" "rx_match (Star a) r = (v, r') # t'"
    unfolding first_is_iff by blast
  with assms(2) show ?thesis by (simp add: rx_match.simps(4) [of a s])
qed

lemma rx_Star_run:
  "\<forall>c \<in> set u. p c \<Longrightarrow> r = [] \<or> \<not> p (hd r) \<Longrightarrow>
   first_is (rx_match (Star (Sym p)) (u @ r)) (u, r)"
proof (induction u)
  case Nil
  then show ?case by (simp add: rx_Star_stop rx_Sym_fail)
next
  case (Cons c u)
  have one: "first_is (rx_match (Sym p) (c # u @ r)) ([c], u @ r)"
    using Cons.prems(1) by (simp add: rx_Sym_Cons)
  have more: "first_is (rx_match (Star (Sym p)) (u @ r)) (u, r)"
    using Cons by simp
  have "first_is (rx_match (Star (Sym p)) (c # u @ r)) ([c] @ u, r)"
    by (rule rx_Star_round [OF one _ more]) simp
  then show ?case by simp
qed

lemma rx_Plus_run:
  assumes "u \<noteq> []" "\<forall>c \<in> set u. p c" "r = [] \<or> \<not> p (hd r)"
  shows "first_is (rx_match (Plus (Sym p)) (u @ r)) (u, r)"
proof -
  from assms(1) obtain c u' where u: "u = c # u'" by (cases u) auto
  have "first_is (rx_match (Sym p) (c # u' @ r)) ([c], u' @ r)"
    using assms(2) u by (simp add: rx_Sym_Cons)
  moreover have "first_is (rx_match (Star (Sym p)) (u' @ r)) (u', r)"
    using assms(2,3) u by (simp add: rx_Star_run)
  ultimately have "first_is (rx_match (Seq (Sym p) (Star (Sym p))) (c # u' @ r)) ([c] @ u', r)"
    by (rule rx_Seq_first)
  with u show ?thesis by (simp add: Plus_def)
qed

text \<open>One plain argument, up to the closing bracket.\<close>

lemma arg_rx_plain:
  assumes "plain_name b" "r = [] \<or> \<not> is_bare (hd r)"
  shows "first_is (rx_match arg_rx (CHR '' '' # b @ r)) (CHR '' '' # b, r)"
proof -
  from assms(1) have ne: "b \<noteq> []" and hd: "\<not> is_space (hd b)" "hd b \<noteq> CHR ''{''"
    and bare: "\<forall>c \<in> set b. is_bare c"
    by (auto simp: plain_name_def is_bare_def)
  have sp: "first_is (rx_match (Plus (Sym is_space)) ('' '' @ b @ r)) ('' '', b @ r)"
    by (rule rx_Plus_run) (use ne hd in \<open>auto simp: is_space_def\<close>)
  have "rx_match (Lit CHR ''{'') (b @ r) = []"
    unfolding Lit_def by (rule rx_Sym_fail) (use ne hd in auto)
  then have "rx_match (Alt (Seq (Lit CHR ''{'') (Seq (LazyStar (Sym is_dot)) (Lit CHR ''}'')))
                     (Plus (Sym is_bare))) (b @ r) = rx_match (Plus (Sym is_bare)) (b @ r)"
    by (simp add: rx_Alt_right rx_Seq_fail)
  moreover have "first_is (rx_match (Plus (Sym is_bare)) (b @ r)) (b, r)"
    by (rule rx_Plus_run) (use ne bare assms(2) in auto)
  ultimately have "first_is (rx_match (Alt (Seq (Lit CHR ''{'') (Seq (LazyStar (Sym is_dot)) (Lit CHR ''}'')))
                     (Plus (Sym is_bare))) (b @ r)) (b, r)" by simp
  with sp have "first_is (rx_match arg_rx ('' '' @ b @ r)) ('' '' @ b, r)"
    unfolding arg_rx_def by (rule rx_Seq_first)
  then show ?thesis by simp
qed

lemma arg_rx_bracket: "rx_match arg_rx (CHR '']'' # r) = []"
  unfolding arg_rx_def Plus_def
  by (simp add: rx_Seq_fail rx_Sym_Cons is_space_def)

lemma star_arg_rx_plain:
  assumes "plain_name b"
  shows "first_is (rx_match (Star arg_rx) (CHR '' '' # b @ CHR '']'' # r)) (CHR '' '' # b, CHR '']'' # r)"
proof -
  have one: "first_is (rx_match arg_rx (CHR '' '' # b @ CHR '']'' # r)) (CHR '' '' # b, CHR '']'' # r)"
    by (rule arg_rx_plain [OF assms]) (simp add: is_bare_def)
  have stop: "first_is (rx_match (Star arg_rx) (CHR '']'' # r)) ([], CHR '']'' # r)"
    by (simp add: rx_Star_stop arg_rx_bracket)
  have "first_is (rx_match (Star arg_rx) (CHR '' '' # b @ CHR '']'' # r))
                     ((CHR '' '' # b) @ [], CHR '']'' # r)"
    by (rule rx_Star_round [OF one _ stop]) simp
  then show ?thesis by simp
qed

lemma directive_at_file:
  assumes "plain_name b"
  shows "first_is (directive_at (''[$file '' @ b @ '']'' @ post)) (''file'', CHR '' '' # b, post)"
proof -
  have a: "rx_match (Seq (Lit CHR ''['') (Lit CHR ''$'')) (''[$file '' @ b @ '']'' @ post)
           = [(''[$'', ''file '' @ b @ '']'' @ post)]"
    by (simp add: rx_match.simps Lit_def)
  have "first_is (rx_match (Plus (Sym is_word)) (''file'' @ (CHR '' '' # b @ '']'' @ post)))
          (''file'', CHR '' '' # b @ '']'' @ post)"
    by (rule rx_Plus_run) (auto simp: is_word_def is_alnum_def)
  then obtain t1 where b1: "rx_match (Plus (Sym is_word)) (''file '' @ b @ '']'' @ post)
          = (''file'', CHR '' '' # b @ '']'' @ post) # t1"
    unfolding first_is_iff by auto
  from star_arg_rx_plain [OF assms, of post]
  obtain t2 where c: "rx_match (Star arg_rx) (CHR '' '' # b @ '']'' @ post)
          = (CHR '' '' # b, '']'' @ post) # t2"
    unfolding first_is_iff by auto
  have d: "rx_match (Lit CHR '']'') ('']'' @ post) = [('']'', post)]"
    by (simp add: rx_match.simps Lit_def)
  from a b1 c d show ?thesis
    by (simp add: directive_at_def)
qed

lemma directive_at_no_bracket: "s = [] \<or> hd s \<noteq> CHR ''['' \<Longrightarrow> directive_at s = []"
proof -
  assume "s = [] \<or> hd s \<noteq> CHR ''[''"
  then have "rx_match (Lit CHR ''['') s = []"
    unfolding Lit_def by (intro rx_Sym_fail) auto
  then show ?thesis by (simp add: directive_at_def rx_Seq_fail)
qed

lemma directive_at_no_dollar:
  "directive_at (CHR ''['' # s) \<noteq> [] \<Longrightarrow> s \<noteq> [] \<and> hd s = CHR ''$''"
proof (rule ccontr)
  assume ne: "directive_at (CHR ''['' # s) \<noteq> []" and "\<not> (s \<noteq> [] \<and> hd s = CHR ''$'')"
  then have "rx_match (Lit CHR ''$'') s = []"
    unfolding Lit_def by (intro rx_Sym_fail) auto
  then have "rx_match (Seq (Lit CHR ''['') (Lit CHR ''$'')) (CHR ''['' # s) = []"
    by (simp add: rx_match.simps Lit_def)
  with ne show False by (simp add: directive_at_def)
qed

lemma re_search_skip:
  "CHR ''['' \<notin> set pre \<Longrightarrow> re_search i (pre @ s) = re_search (i + length pre) s"
proof (induction pre arbitrary: i)
  case Nil
  then show ?case by simp
next
  case (Cons c pre)
  then have "directive_at (c # pre @ s) = []" by (intro directive_at_no_bracket) auto
  with Cons show ?case by simp
qed

lemma re_search_first:
  assumes "first_is (directive_at s) (name, g2, rest)"
  shows "re_search i s = Some (i, name, g2)"
proof -
  from assms obtain t where d: "directive_at s = (name, g2, rest) # t"
    unfolding first_is_iff by blast
  show ?thesis
  proof (cases s)
    case Nil
    with d show ?thesis by simp
  next
    case (Cons c cs)
    with d show ?thesis by simp
  qed
qed

lemma has_marker_no_bracket: "CHR ''['' \<notin> set u \<Longrightarrow> has_marker (u @ v) = has_marker v"
proof (induction u)
  case Nil
  then show ?case by simp
next
  case (Cons c u)
  then have IH: "has_marker (u @ v) = has_marker v" and c: "c \<noteq> CHR ''[''" by auto
  show ?case
  proof (cases "u @ v")
    case Nil
    then show ?thesis by simp
  next
    case (Cons d r)
    with IH c show ?thesis by simp
  qed
qed

lemma re_search_no_marker: "\<not> has_marker s \<Longrightarrow> re_search i s = None"
proof (induction s arbitrary: i)
  case Nil
  then show ?case by (simp add: directive_at_no_bracket)
next
  case (Cons c s)
  have "directive_at (c # s) = []"
  proof (cases "c = CHR ''[''")
    case True
    show ?thesis
    proof (rule ccontr)
      assume "directive_at (c # s) \<noteq> []"
      with True directive_at_no_dollar [of s] have "s \<noteq> [] \<and> hd s = CHR ''$''" by simp
      with True Cons.prems show False by (cases s) auto
    qed
  next
    case False
    then show ?thesis by (intro directive_at_no_bracket) simp
  qed
  moreover from Cons.prems have "\<not> has_marker s" by (cases s) auto
  ultimately show ?case using Cons.IH by simp
qed

lemma parse_directive_no_marker: "\<not> has_marker s \<Longrightarrow> parse_directive s = None"
  by (simp add: parse_directive_def re_search_no_marker)

section \<open>One round of the loop on a \<^verbatim>\<open>file\<close> directive\<close>

text \<open>
  The parse of a \<^verbatim>\<open>file\<close> directive with one plain argument, the round of the loop that
  expands it, the round that finds nothing to expand, and the entry into a source that can
  be read.
\<close>

lemma plain_name_replicate: "0 < k \<Longrightarrow> plain_name (replicate k (CHR ''a''))"
  by (auto simp: plain_name_def is_space_def)

lemma dropWhile_same: "xs \<noteq> [] \<Longrightarrow> \<not> P (hd xs) \<Longrightarrow> dropWhile P xs = xs"
  by (cases xs) auto

lemma py_strip_plain:
  assumes "plain_name b"
  shows "py_strip (CHR '' '' # b) = b"
proof -
  from assms have ne: "b \<noteq> []" and h: "\<not> is_space (hd b)" and l: "\<not> is_space (last b)"
    by (auto simp: plain_name_def)
  have "dropWhile is_space (CHR '' '' # b) = b"
    using ne h by (simp add: is_space_def dropWhile_same)
  moreover have "dropWhile is_space (rev b) = rev b"
    using ne l by (intro dropWhile_same) (simp_all add: hd_rev)
  ultimately show ?thesis by (simp add: py_strip_def)
qed

lemma split_args_run:
  "\<forall>c \<in> set u. \<not> is_space c \<and> c \<noteq> CHR ''{'' \<and> c \<noteq> CHR ''}'' \<Longrightarrow>
   split_args acc cur ib (u @ s) = split_args acc (cur @ u) ib s"
  by (induction u arbitrary: cur) auto

lemma split_args_plain: "plain_name b \<Longrightarrow> split_args [] [] False b = [b]"
  using split_args_run [of b "[]" "[]" False "[]"] by (auto simp: plain_name_def)

lemma parse_directive_file:
  assumes "plain_name b" "CHR ''['' \<notin> set pre"
  shows "parse_directive (pre @ ''[$file '' @ b @ '']'' @ post) =
           Some \<lparr> full_match = ''[$file '' @ b @ '']'', directive_name = ''file'', args = [b],
                  start = length pre, end_pos = length pre + length (''[$file '' @ b @ '']'') \<rparr>"
proof -
  have "re_search 0 (pre @ (''[$file '' @ b @ '']'' @ post))
          = re_search (0 + length pre) (''[$file '' @ b @ '']'' @ post)"
    by (rule re_search_skip [OF assms(2)])
  also have "\<dots> = Some (0 + length pre, ''file'', CHR '' '' # b)"
    by (rule re_search_first [OF directive_at_file [OF assms(1)]])
  finally have s: "re_search 0 (pre @ ''[$file '' @ b @ '']'' @ post)
                     = Some (length pre, ''file'', CHR '' '' # b)" by simp
  from assms(1) have ne: "b \<noteq> []" by (simp add: plain_name_def)
  show ?thesis
    unfolding parse_directive_def s
    by (simp add: py_strip_plain [OF assms(1)] split_args_plain [OF assms(1)] ne)
qed

lemma no_marker_hash:
  assumes "CHR ''['' \<notin> set u" "CHR ''['' \<notin> set v"
  shows "\<not> has_marker (u @ CHR ''['' # CHR ''#'' # v)"
proof -
  have "has_marker (u @ CHR ''['' # CHR ''#'' # v) = has_marker (CHR ''['' # CHR ''#'' # v)"
    by (rule has_marker_no_bracket [OF assms(1)])
  also have "\<dots> = has_marker ((CHR ''#'' # v) @ [])" by simp
  also have "\<dots> = has_marker []"
    by (rule has_marker_no_bracket) (use assms(2) in simp)
  finally show ?thesis by simp
qed

lemma expand_loop_done:
  "\<not> has_marker c \<Longrightarrow> expand_loop (Suc n) E st ctx c = (Returned c, st)"
  by (simp add: parse_directive_no_marker)

lemma expand_loop_file:
  assumes "plain_name b" "CHR ''['' \<notin> set pre"
  shows "expand_loop (Suc n) E st ctx (pre @ ''[$file '' @ b @ '']'' @ post) =
     (case try_include (process_file_recursive n E) st b None (ctx_depth ctx)
             (''[# $file '' @ b @ '': infinite loop]'') of
        (Returned (PStr r), st1) \<Rightarrow> expand_loop n E st1 ctx (pre @ r @ post)
      | (Returned _, st1) \<Rightarrow> (Raised TypeError, st1)
      | (Raised e, st1) \<Rightarrow> (Raised e, st1)
      | (OutOfFuel, st1) \<Rightarrow> (OutOfFuel, st1))"
proof -
  define m where "m = \<lparr> full_match = ''[$file '' @ b @ '']'', directive_name = ''file'', args = [b],
                  start = length pre, end_pos = length pre + length (''[$file '' @ b @ '']'') \<rparr>"
  have p: "parse_directive (pre @ ''[$file '' @ b @ '']'' @ post) = Some m"
    unfolding m_def by (rule parse_directive_file [OF assms])
  have r: "replacement_for (process_file_recursive n E) E st ctx m =
      try_include (process_file_recursive n E) st b None (ctx_depth ctx)
             (''[# $file '' @ b @ '': infinite loop]'')"
    by (simp add: replacement_for_def m_def directives_def handle_file_def)
  have sp: "splice (pre @ ''[$file '' @ b @ '']'' @ post) m r = pre @ r @ post" for r
  proof -
    define fm where "fm = ''[$file '' @ b @ '']''"
    have "take (length pre) (pre @ fm @ post) @ r @ drop (length pre + length fm) (pre @ fm @ post)
            = pre @ r @ post" by simp
    then show ?thesis by (simp add: splice_def m_def fm_def)
  qed
  show ?thesis
    unfolding expand_loop.simps p option.case r
    by (simp only: sp)
qed

lemma process_file_recursive_enter:
  assumes "d \<le> 100" "f \<notin> set (current_path st)" "fs E f = Content c"
  shows "process_file_recursive (Suc n) E st f a d =
     (case expand_loop n E (st\<lparr>current_path := current_path st @ [f], opened := opened st @ [f]\<rparr>)
             \<lparr> ctx_depth = d + 1, ctx_args = (case a of None \<Rightarrow> [] | Some x \<Rightarrow> x),
               ctx_filename = f \<rparr> c of
        (Returned t, st3) \<Rightarrow> (Returned t, st3\<lparr>current_path := butlast (current_path st3)\<rparr>)
      | (Raised e, st3) \<Rightarrow> (Raised e, st3)
      | (OutOfFuel, st3) \<Rightarrow> (OutOfFuel, st3))"
  using assms by (simp add: read_file_content_def)

section \<open>Two sources that include each other\<close>

text \<open>
  Source \<open>A\<close> holds a \<^verbatim>\<open>file\<close> directive for \<open>B\<close> and source \<open>B\<close> one for \<open>A\<close>, each between
  text without an opening bracket.  The expansion of \<open>A\<close> enters \<open>B\<close>, whose directive
  finds \<open>A\<close> on the call stack; the handler in \<open>B\<close> puts the placeholder in its place, and
  both sources are then expanded to the end.
\<close>

lemma cycle_expansion:
  assumes A: "plain_name A" and B: "plain_name B" and ne: "A \<noteq> B"
    and pa: "CHR ''['' \<notin> set pa" and qa: "CHR ''['' \<notin> set qa"
    and pb: "CHR ''['' \<notin> set pb" and qb: "CHR ''['' \<notin> set qb"
    and fA: "fs E A = Content (pa @ ''[$file '' @ B @ '']'' @ qa)"
    and fB: "fs E B = Content (pb @ ''[$file '' @ A @ '']'' @ qb)"
    and nA: "A \<notin> set (current_path st)" and nB: "B \<notin> set (current_path st)"
    and d: "d \<le> 98" and n: "5 \<le> n"
  shows "process_file_recursive n E st A a d =
     (Returned (pa @ pb @ ''[# $file '' @ A @ '': infinite loop]'' @ qb @ qa),
      st\<lparr>opened := opened st @ [A, B],
         console := console st @
           [ErrorProcessing A (CircularReferenceError
              (''Circular reference detected: '' @ join '' -> '' (current_path st @ [A, B, A])))]\<rparr>)"
proof -
  from n obtain k where "n = 5 + k" using le_Suc_ex by blast
  then have k: "n = Suc (Suc (Suc (Suc (Suc k))))" by simp
  define msg where "msg = ''Circular reference detected: '' @ join '' -> '' (current_path st @ [A, B, A])"
  define ph where "ph = ''[# $file '' @ A @ '': infinite loop]''"
  define st2 where "st2 = st\<lparr>current_path := current_path st @ [A], opened := opened st @ [A]\<rparr>"
  define st4 where "st4 = st2\<lparr>current_path := current_path st2 @ [B], opened := opened st2 @ [B]\<rparr>"
  define st5 where "st5 = emit (ErrorProcessing A (CircularReferenceError msg)) st4"
  define ctxA where "ctxA = \<lparr> ctx_depth = d + 1, ctx_args = (case a of None \<Rightarrow> [] | Some x \<Rightarrow> x),
               ctx_filename = A \<rparr>"
  define ctxB where "ctxB = \<lparr> ctx_depth = d + 1 + 1, ctx_args = (case (None :: pydict option) of None \<Rightarrow> [] | Some x \<Rightarrow> x),
               ctx_filename = B \<rparr>"
  have inA: "CHR ''['' \<notin> set A" using A by (auto simp: plain_name_def)
  have nm_b: "\<not> has_marker (pb @ ph @ qb)"
    using no_marker_hash [OF pb, of "'' $file '' @ A @ '': infinite loop]'' @ qb"] inA qb
    by (simp add: ph_def)
  have nm_a: "\<not> has_marker (pa @ (pb @ ph @ qb) @ qa)"
    using no_marker_hash [of "pa @ pb" "'' $file '' @ A @ '': infinite loop]'' @ qb @ qa"] inA qb pa pb qa
    by (simp add: ph_def)
  have inner: "process_file_recursive (Suc k) E st4 A None (ctx_depth ctxB)
                 = (Raised (CircularReferenceError msg), st4)"
    using d by (simp add: st4_def st2_def msg_def ctxB_def)
  have incl: "try_include (process_file_recursive (Suc k) E) st4 A None (ctx_depth ctxB)
                (''[# $file '' @ A @ '': infinite loop]'') = (Returned (PStr ph), st5)"
    by (simp only: try_include_def inner prod.case outcome.case exn.case st5_def ph_def)
  have loopB: "expand_loop (Suc (Suc k)) E st4 ctxB (pb @ ''[$file '' @ A @ '']'' @ qb)
                 = (Returned (pb @ ph @ qb), st5)"
    by (simp only: expand_loop_file [OF A pb] incl prod.case outcome.case pyval.case
          expand_loop_done [OF nm_b])
  have callB: "process_file_recursive (Suc (Suc (Suc k))) E st2 B None (ctx_depth ctxA)
                 = (Returned (pb @ ph @ qb), st5\<lparr>current_path := butlast (current_path st5)\<rparr>)"
  proof -
    have "d + 1 \<le> 100" using d by simp
    moreover have "B \<notin> set (current_path st2)" using nB ne by (simp add: st2_def)
    ultimately show ?thesis
      using process_file_recursive_enter [OF _ _ fB, of "d + 1" st2 "Suc (Suc k)" None] loopB
      by (simp add: st4_def ctxB_def ctxA_def)
  qed
  define st6 where "st6 = st5\<lparr>current_path := butlast (current_path st5)\<rparr>"
  have inclB: "try_include (process_file_recursive (Suc (Suc (Suc k))) E) st2 B None (ctx_depth ctxA)
                (''[# $file '' @ B @ '': infinite loop]'') = (Returned (PStr (pb @ ph @ qb)), st6)"
    by (simp only: try_include_def callB prod.case outcome.case st6_def)
  have loopA: "expand_loop (Suc (Suc (Suc (Suc k)))) E st2 ctxA (pa @ ''[$file '' @ B @ '']'' @ qa)
                 = (Returned (pa @ (pb @ ph @ qb) @ qa), st6)"
    by (simp only: expand_loop_file [OF B pa] inclB prod.case outcome.case pyval.case
          expand_loop_done [OF nm_a])
  have "d \<le> 100" using d by simp
  from process_file_recursive_enter [OF this nA fA, of "Suc (Suc (Suc (Suc k)))" a] loopA
  have "process_file_recursive n E st A a d
          = (Returned (pa @ (pb @ ph @ qb) @ qa), st6\<lparr>current_path := butlast (current_path st6)\<rparr>)"
    by (simp add: k st2_def ctxA_def)
  moreover have "st6\<lparr>current_path := butlast (current_path st6)\<rparr>
        = st\<lparr>opened := opened st @ [A, B],
            console := console st @ [ErrorProcessing A (CircularReferenceError msg)]\<rparr>"
    by (simp add: st6_def st5_def st4_def st2_def emit_def butlast_append)
  ultimately show ?thesis by (simp add: ph_def msg_def)
qed

section \<open>A source that only includes another one\<close>

text \<open>
  A source at depth 100 whose text is one \<^verbatim>\<open>file\<close> directive: the nested call has depth 101
  and raises DepthExceeded, which the handler turns into its placeholder.  A source whose
  nested call returns a text without directive markers returns that text.
\<close>

lemma include_too_deep:
  assumes b: "plain_name b" and f: "fs E f = Content (''[$file '' @ b @ '']'')"
    and nf: "f \<notin> set (current_path st)" and n: "3 \<le> n"
  shows "fst (process_file_recursive n E st f fa 100)
           = Returned (''[# $file '' @ b @ '': infinite loop]'')"
proof -
  from n obtain n3 where "n = 3 + n3" using le_Suc_ex by blast
  then have n: "n = Suc (Suc (Suc n3))" by simp
  define ph where "ph = ''[# $file '' @ b @ '': infinite loop]''"
  define st1 where "st1 = st\<lparr>current_path := current_path st @ [f], opened := opened st @ [f]\<rparr>"
  define ctx where "ctx = \<lparr> ctx_depth = 100 + 1, ctx_args = (case fa of None \<Rightarrow> [] | Some x \<Rightarrow> x),
               ctx_filename = f \<rparr>"
  define st2 where "st2 = emit (ErrorProcessing b (RecursionError ''Maximum recursion depth exceeded'')) st1"
  have inner: "process_file_recursive (Suc n3) E st1 b None (ctx_depth ctx)
      = (Raised (RecursionError ''Maximum recursion depth exceeded''), st1)"
    by (simp add: ctx_def)
  have incl: "try_include (process_file_recursive (Suc n3) E) st1 b None
                (ctx_depth ctx) (''[# $file '' @ b @ '': infinite loop]'')
      = (Returned (PStr ph), st2)"
    by (simp only: try_include_def inner prod.case outcome.case exn.case ph_def st2_def)
  have "CHR ''['' \<notin> set b" using b by (auto simp: plain_name_def)
  then have nm: "\<not> has_marker ([] @ ph @ [])"
    using no_marker_hash [of "[]" "'' $file '' @ b @ '': infinite loop]''"]
    by (simp add: ph_def)
  have e: "CHR ''['' \<notin> set ([] :: string)" by simp
  have loop: "expand_loop (Suc (Suc n3)) E st1 ctx ([] @ ''[$file '' @ b @ '']'' @ [])
                 = (Returned ([] @ ph @ []), st2)"
    by (simp only: expand_loop_file [OF b e] incl prod.case outcome.case pyval.case
          expand_loop_done [OF nm])
  have d: "(100 :: int) \<le> 100" by simp
  have "process_file_recursive (Suc (Suc (Suc n3))) E st f fa 100 =
          (Returned ([] @ ph @ []), st2\<lparr>current_path := butlast (current_path st2)\<rparr>)"
    unfolding process_file_recursive_enter [OF d nf f [folded append_Nil [of "''[$file '' @ b @ '']'' @ []"], unfolded append_Nil2]]
    apply (fold st1_def ctx_def)
    apply (simp only: append_Nil append_Nil2 loop [unfolded append_Nil append_Nil2] prod.case outcome.case)
    done
  then show ?thesis by (simp add: n ph_def)
qed

lemma include_passes_text:
  assumes b: "plain_name b" and f: "fs E f = Content (''[$file '' @ b @ '']'')"
    and nf: "f \<notin> set (current_path st)" and d: "d \<le> 100"
    and inner: "fst (process_file_recursive (Suc n1) E
                  (st\<lparr>current_path := current_path st @ [f], opened := opened st @ [f]\<rparr>)
                  b None (d + 1)) = Returned t"
    and nm: "\<not> has_marker t"
  shows "fst (process_file_recursive (Suc (Suc (Suc n1))) E st f fa d) = Returned t"
proof -
  define st1 where "st1 = st\<lparr>current_path := current_path st @ [f], opened := opened st @ [f]\<rparr>"
  define ctx where "ctx = \<lparr> ctx_depth = d + 1, ctx_args = (case fa of None \<Rightarrow> [] | Some x \<Rightarrow> x),
               ctx_filename = f \<rparr>"
  from inner obtain st2 where call: "process_file_recursive (Suc n1) E st1 b None (ctx_depth ctx)
          = (Returned t, st2)"
    by (cases "process_file_recursive (Suc n1) E st1 b None (d + 1)") (simp add: st1_def ctx_def)
  have incl: "try_include (process_file_recursive (Suc n1) E) st1 b None
                (ctx_depth ctx) (''[# $file '' @ b @ '': infinite loop]'')
      = (Returned (PStr t), st2)"
    by (simp only: try_include_def call prod.case outcome.case)
  have nm': "\<not> has_marker ([] @ t @ [])" using nm by simp
  have e: "CHR ''['' \<notin> set ([] :: string)" by simp
  have loop: "expand_loop (Suc (Suc n1)) E st1 ctx ([] @ ''[$file '' @ b @ '']'' @ [])
                 = (Returned ([] @ t @ []), st2)"
    by (simp only: expand_loop_file [OF b e] incl prod.case outcome.case pyval.case
          expand_loop_done [OF nm'])
  have "process_file_recursive (Suc (Suc (Suc n1))) E st f fa d =
          (Returned ([] @ t @ []), st2\<lparr>current_path := butlast (current_path st2)\<rparr>)"
    unfolding process_file_recursive_enter [OF d nf f [folded append_Nil [of "''[$file '' @ b @ '']'' @ []"], unfolded append_Nil2]]
    apply (fold st1_def ctx_def)
    apply (simp only: append_Nil append_Nil2 loop [unfolded append_Nil append_Nil2] prod.case outcome.case)
    done
  then show ?thesis by simp
qed

section \<open>The chain of 101 sources\<close>

text \<open>
  By induction on the number of sources below: every source of the chain, expanded at the
  depth at which the chain reaches it, returns the placeholder of the last inclusion.
\<close>

lemma chain_fs:
  "0 < k \<Longrightarrow> k \<le> 101 \<Longrightarrow>
   fs chain_env (replicate k (CHR ''a'')) = Content (''[$file '' @ replicate (Suc k) (CHR ''a'') @ '']'')"
  by (simp add: chain_env_def replicate_append_same)

lemma chain_level:
  "k + m = 101 \<Longrightarrow> 0 < k \<Longrightarrow> \<forall>p \<in> set (current_path st). length p < k \<Longrightarrow>
   2 * m + 3 \<le> n \<Longrightarrow>
   fst (process_file_recursive n chain_env st (replicate k (CHR ''a'')) fa (int k - 1))
     = Returned chain_placeholder"
proof (induction m arbitrary: k st n fa)
  case 0
  then have k: "k = 101" by simp
  have nf: "replicate k (CHR ''a'') \<notin> set (current_path st)"
    using "0.prems"(3) by auto
  have "fst (process_file_recursive n chain_env st (replicate k (CHR ''a'')) fa 100)
           = Returned (''[# $file '' @ replicate (Suc k) (CHR ''a'') @ '': infinite loop]'')"
    by (rule include_too_deep [OF plain_name_replicate chain_fs nf])
       (use "0.prems" in simp_all)
  moreover have "Suc k = 102" using k by simp
  moreover have "int k - 1 = 100" using k by simp
  ultimately show ?case by (simp only: chain_placeholder_def)
next
  case (Suc m)
  from Suc.prems(4) obtain n1 where "n = 3 + n1" using le_Suc_ex by fastforce
  then have n: "n = Suc (Suc (Suc n1))" by simp
  with Suc.prems(4) have n1: "2 * m + 3 \<le> Suc n1" by simp
  have k: "Suc k + m = 101" "k \<le> 101" "int k - 1 \<le> 100" using Suc.prems(1) by simp_all
  define A where "A = replicate k (CHR ''a'')"
  define st1 where "st1 = st\<lparr>current_path := current_path st @ [A], opened := opened st @ [A]\<rparr>"
  have nf: "A \<notin> set (current_path st)"
    using Suc.prems(3) by (auto simp: A_def)
  have "\<forall>p \<in> set (current_path st1). length p < Suc k"
    using Suc.prems(3) by (auto simp: st1_def A_def)
  from Suc.IH [OF k(1) _ this n1, of None]
  have inner: "fst (process_file_recursive (Suc n1) chain_env st1 (replicate (Suc k) (CHR ''a'')) None
                 (int k - 1 + 1)) = Returned chain_placeholder"
    by simp
  have nm: "\<not> has_marker chain_placeholder"
    using no_marker_hash [of "[]" "'' $file '' @ replicate 102 (CHR ''a'') @ '': infinite loop]''"]
    by (simp add: chain_placeholder_def)
  have "fst (process_file_recursive (Suc (Suc (Suc n1))) chain_env st A fa (int k - 1))
          = Returned chain_placeholder"
    by (rule include_passes_text [OF plain_name_replicate
          chain_fs [OF Suc.prems(2) k(2), folded A_def] nf k(3) inner [unfolded st1_def] nm])
       simp
  then show ?case by (simp only: n A_def)
qed

section \<open>A directive without a handler\<close>

text \<open>
  When the directive that the loop finds has no handler, the round prints the warning and
  puts the matched text back where it was, so the next round finds the same directive in
  the same content: no amount of fuel ends the loop.
\<close>

lemma unknown_directive_round:
  assumes "parse_directive c = Some m" "directives (directive_name m) = None"
  shows "expand_loop (Suc n) E st ctx c
           = expand_loop n E (emit (UnknownDirective (directive_name m)) st) ctx c"
  using assms by (simp add: replacement_for_def splice_full_match)

lemma unknown_directive_never_finishes:
  assumes "parse_directive c = Some m" "directives (directive_name m) = None"
  shows "fst (expand_loop n E st ctx c) = OutOfFuel"
proof (induction n arbitrary: st)
  case 0
  show ?case by simp
next
  case (Suc n)
  show ?case
    unfolding unknown_directive_round [OF assms] by (rule Suc.IH)
qed

lemma unknown_directive_source_never_finishes:
  assumes f: "fs E f = Content c" and p: "parse_directive c = Some m"
    and u: "directives (directive_name m) = None"
    and d: "d \<le> 100" and nf: "f \<notin> set (current_path st)"
  shows "fst (process_file_recursive n E st f a d) = OutOfFuel"
proof (cases n)
  case 0
  then show ?thesis by simp
next
  case (Suc n')
  show ?thesis
    unfolding Suc process_file_recursive_enter [OF d nf f]
    using unknown_directive_never_finishes [OF p u, of n' E]
    by (auto split: prod.splits outcome.splits dest: arg_cong [where f = fst])
qed

lemma parse_foo:
  "parse_directive ''[$foo]'' =
     Some \<lparr> full_match = ''[$foo]'', directive_name = ''foo'', args = [], start = 0, end_pos = 6 \<rparr>"
  by code_simp

lemma foo_unknown: "directives ''foo'' = None"
  by (simp add: directives_def)

lemma fs_files_env_hd: "fs (files_env ((f, c) # rest)) f = Content c"
  by (simp add: files_env_def)

section \<open>Handlers called with too few arguments\<close>

text \<open>
  \<^verbatim>\<open>fileif\<close> with one argument raises IndexError out of the loop.  The placeholder of
  \<^verbatim>\<open>generate_recursive\<close> for fewer than three arguments is itself a
  \<^verbatim>\<open>generate_recursive\<close> directive with one argument, so the loop replaces it by
  itself for ever.
\<close>

lemma parse_fileif_one:
  "parse_directive ''[$fileif f]'' =
     Some \<lparr> full_match = ''[$fileif f]'', directive_name = ''fileif'', args = [''f''],
            start = 0, end_pos = 11 \<rparr>"
  by code_simp

lemma parse_generate_two:
  "parse_directive ''[$generate_recursive a b]'' =
     Some \<lparr> full_match = ''[$generate_recursive a b]'', directive_name = ''generate_recursive'',
            args = [''a'', ''b''], start = 0, end_pos = 25 \<rparr>"
  by code_simp

lemma parse_generate_missing:
  "parse_directive ''[$generate_recursive missing_arguments]'' =
     Some \<lparr> full_match = ''[$generate_recursive missing_arguments]'',
            directive_name = ''generate_recursive'',
            args = [''missing_arguments''], start = 0, end_pos = 39 \<rparr>"
  by code_simp

lemma generate_missing_round:
  "expand_loop (Suc n) E st ctx ''[$generate_recursive missing_arguments]''
     = expand_loop n E st ctx ''[$generate_recursive missing_arguments]''"
  by (simp add: parse_generate_missing replacement_for_def directives_def
      handle_generate_recursive_def splice_def)

lemma generate_missing_never_finishes:
  "fst (expand_loop n E st ctx ''[$generate_recursive missing_arguments]'') = OutOfFuel"
proof (induction n)
  case 0
  show ?case by simp
next
  case (Suc n)
  then show ?case by (simp only: generate_missing_round)
qed

lemma generate_two_round:
  "expand_loop (Suc n) E st ctx ''[$generate_recursive a b]''
     = expand_loop n E st ctx ''[$generate_recursive missing_arguments]''"
  by (simp add: parse_generate_two replacement_for_def directives_def
      handle_generate_recursive_def splice_def)

lemma fileif_one_round:
  "expand_loop (Suc n) E st ctx ''[$fileif f]'' = (Raised IndexError, st)"
  by (simp add: parse_fileif_one replacement_for_def directives_def handle_fileif_def)

section \<open>A source that cannot be read\<close>

text \<open>
  The loader gives the fallback text, which is a \<^verbatim>\<open>file\<close> directive for the source
  itself.  The loop expands it like any other directive: the source is on the call stack
  (or the depth is used up), so the handler replaces the fallback text by its
  placeholder.
\<close>

lemma read_file_content_fallback:
  assumes "\<forall>c. fs E f \<noteq> Content c"
  shows "fst (read_file_content E st f) = ''[$file '' @ f @ '']''"
    and "current_path (snd (read_file_content E st f)) = current_path st"
  using assms by (cases "fs E f"; simp add: read_file_content_def)+

lemma missing_source_expansion:
  assumes b: "plain_name b" and f: "\<forall>c. fs E b \<noteq> Content c"
    and nf: "b \<notin> set (current_path st)" and d: "d \<le> 100" and n: "3 \<le> n"
  shows "fst (process_file_recursive n E st b fa d) = Returned (''[# $file '' @ b @ '': infinite loop]'')"
proof -
  from n obtain n3 where "n = 3 + n3" using le_Suc_ex by blast
  then have n: "n = Suc (Suc (Suc n3))" by simp
  define ph where "ph = ''[# $file '' @ b @ '': infinite loop]''"
  define st0 where "st0 = st\<lparr>current_path := current_path st @ [b]\<rparr>"
  obtain content st1 where rd: "read_file_content E st0 b = (content, st1)"
    by (cases "read_file_content E st0 b")
  with read_file_content_fallback(1) [OF f, of st0]
  have content: "content = [] @ ''[$file '' @ b @ '']'' @ []" by simp
  have path: "current_path st1 = current_path st @ [b]"
    using arg_cong [OF rd, of "\<lambda>x. current_path (snd x)"] by (simp add: st0_def)
  define ctx where "ctx = \<lparr> ctx_depth = d + 1, ctx_args = (case fa of None \<Rightarrow> [] | Some x \<Rightarrow> x),
               ctx_filename = b \<rparr>"
  have "\<exists>e. unwinds e \<and> process_file_recursive (Suc n3) E st1 b None (ctx_depth ctx) = (Raised e, st1)"
    using path by (auto simp: ctx_def)
  then obtain e where e: "unwinds e"
    and inner: "process_file_recursive (Suc n3) E st1 b None (ctx_depth ctx) = (Raised e, st1)"
    by blast
  have incl: "try_include (process_file_recursive (Suc n3) E) st1 b None
                (ctx_depth ctx) (''[# $file '' @ b @ '': infinite loop]'')
      = (Returned (PStr ph), emit (ErrorProcessing b e) st1)"
    using e by (cases e) (simp_all only: try_include_def inner prod.case outcome.case exn.case ph_def unwinds.simps)
  have "CHR ''['' \<notin> set b" using b by (auto simp: plain_name_def)
  then have nm: "\<not> has_marker ([] @ ph @ [])"
    using no_marker_hash [of "[]" "'' $file '' @ b @ '': infinite loop]''"]
    by (simp add: ph_def)
  have em: "CHR ''['' \<notin> set ([] :: string)" by simp
  have loop: "expand_loop (Suc (Suc n3)) E st1 ctx content
                 = (Returned ([] @ ph @ []), emit (ErrorProcessing b e) st1)"
    unfolding content
    by (simp only: expand_loop_file [OF b em] incl prod.case outcome.case pyval.case
          expand_loop_done [OF nm])
  have "fst (process_file_recursive (Suc (Suc (Suc n3))) E st b fa d) = Returned ph"
    using d nf rd loop by (simp add: st0_def ctx_def)
  then show ?thesis by (simp add: n ph_def)
qed

lemma fs_files_env_missing: "map_of files f = None \<Longrightarrow> fs (files_env files) f = NotFound"
  by (simp add: files_env_def)

lemma plain_missing_txt: "plain_name ''missing.txt''"
  by (simp add: plain_name_def is_space_def)

section \<open>The call stack after a call\<close>





section \<open>The gate of \<^verbatim>\<open>fileif\<close>\<close>

text \<open>
  With two arguments or more and a gate that is not true, the handler prints its check and
  returns the empty text without calling the processor.
\<close>

lemma handle_fileif_gate_closed:
  assumes "\<not> truthy (dict_get (ctx_args ctx) check (PBool False))"
  shows "handle_fileif rec E st (filename # check # rest) ctx
           = (Returned (PStr []),
              emit (GateCheck check (ctx_args ctx) (dict_get (ctx_args ctx) check (PBool False))) st)"
  using assms by (simp add: handle_fileif_def Let_def)

lemma parse_fileif_gate:
  "parse_directive ''[$fileif other.txt flag]'' =
     Some \<lparr> full_match = ''[$fileif other.txt flag]'', directive_name = ''fileif'',
            args = [''other.txt'', ''flag''], start = 0, end_pos = 24 \<rparr>"
  by code_simp

lemma fileif_gate_expansion:
  assumes g: "\<not> truthy (dict_get scope ''flag'' (PBool False))"
    and f: "fs E f = Content ''[$fileif other.txt flag]''"
    and nf: "f \<notin> set (current_path st)" and d: "d \<le> 100"
  shows "process_file_recursive (Suc (Suc (Suc n))) E st f (Some scope) d
     = (Returned [],
        st\<lparr>opened := opened st @ [f],
           console := console st @ [GateCheck ''flag'' scope (dict_get scope ''flag'' (PBool False))]\<rparr>)"
proof -
  have round: "expand_loop (Suc (Suc n)) E st1 \<lparr> ctx_depth = d + 1, ctx_args = scope, ctx_filename = f \<rparr>
          ''[$fileif other.txt flag]''
        = (Returned [], emit (GateCheck ''flag'' scope (dict_get scope ''flag'' (PBool False))) st1)" for st1
    using g
    by (simp add: parse_fileif_gate replacement_for_def directives_def handle_fileif_def Let_def
        splice_def parse_directive_no_marker)
  show ?thesis
    unfolding process_file_recursive_enter [OF d nf f]
    by (simp add: round emit_def butlast_append del: expand_loop.simps)
qed

section \<open>Argument scopes\<close>









section \<open>Brace literals\<close>











section \<open>The generated pattern\<close>


lemma build_pattern_returns_nonneg:
  assumes ret: "build_pattern p op n = Some r"
  shows "0 \<le> n"
proof (rule build_pattern.raw_induct [where P = "\<lambda>p op n r. 0 \<le> n", OF _ ret])
  fix f :: "string \<Rightarrow> string \<Rightarrow> int \<Rightarrow> string option" and p op n r
  assume IH: "\<And>p op n r. f p op n = Some r \<Longrightarrow> 0 \<le> n"
    and eq: "(if n = 0 then Some (''[VAR '' @ p @ ''0]'')
      else Option.bind (f p op (n - 1))
             (\<lambda>inner. Some (''[MATH [VAR '' @ p @ str_int n @ ''] '' @ op @ '' ''
                                @ inner @ '']''))) = Some r"
  show "0 \<le> n"
  proof (cases "n = 0")
    case True
    then show ?thesis by simp
  next
    case False
    with eq obtain inner where "f p op (n - 1) = Some inner"
      by (auto simp: bind_eq_Some_conv)
    from IH [OF this] show ?thesis by simp
  qed
qed

lemma build_pattern_negative: "n < 0 \<Longrightarrow> build_pattern p op n = None"
  using build_pattern_returns_nonneg [of p op n] by (cases "build_pattern p op n") auto




section \<open>The claims\<close>

text \<open>
  Claim C1: a failure of a directive that is neither circular nor a depth failure is local;
  in particular a source holding \<^verbatim>\<open>[$fileif f]\<close> or \<^verbatim>\<open>[$generate_recursive a b]\<close> is expanded to
  the end, with a diagnostic placeholder in place of the directive.

  The processor does not do this.  With any fuel that reaches the loop, the expansion of
  \<^verbatim>\<open>[$fileif f]\<close> raises IndexError; and with no amount of fuel does the expansion of
  \<^verbatim>\<open>[$generate_recursive a b]\<close> finish.
\<close>

theorem missing_arguments_not_local:
  "fst (process_file_recursive (Suc (Suc n)) (files_env [(''a.txt'', ''[$fileif f]'')])
          initial_state ''a.txt'' None 0) = Raised IndexError
   \<and> fst (process_file_recursive n (files_env [(''g.txt'', ''[$generate_recursive a b]'')])
          initial_state ''g.txt'' None 0) = OutOfFuel"
proof
  have d: "(0::int) \<le> 100" by simp
  have nf: "f \<notin> set (current_path initial_state)" for f by (simp add: initial_state_def)
  show "fst (process_file_recursive (Suc (Suc n)) (files_env [(''a.txt'', ''[$fileif f]'')])
          initial_state ''a.txt'' None 0) = Raised IndexError"
    unfolding process_file_recursive_enter [OF d nf fs_files_env_hd] fileif_one_round
    by simp
  show "fst (process_file_recursive n (files_env [(''g.txt'', ''[$generate_recursive a b]'')])
          initial_state ''g.txt'' None 0) = OutOfFuel"
  proof (cases n)
    case 0
    then show ?thesis by simp
  next
    case (Suc n1)
    show ?thesis
    proof (cases n1)
      case 0
      with Suc show ?thesis
        unfolding Suc process_file_recursive_enter [OF d nf fs_files_env_hd] by simp
    next
      case (Suc n2)
      show ?thesis
        unfolding \<open>n = Suc n1\<close> Suc process_file_recursive_enter [OF d nf fs_files_env_hd]
          generate_two_round
        using generate_missing_never_finishes [of n2]
        by (auto split: prod.splits outcome.splits dest: arg_cong [where f = fst])
    qed
  qed
qed

text \<open>
  Claim C2: for a source that cannot be read the loader returns the fallback text
  \<^verbatim>\<open>[$file <name>]\<close>, and that text is still present in the final output.

  The loader does return it.  The loop then expands the fallback text as the directive
  it is, and the output holds the placeholder of the \<^verbatim>\<open>file\<close> handler instead: both when
  the missing source is expanded itself and when a document includes it.
\<close>

theorem missing_source_not_kept:
  "fst (read_file_content (files_env [(''doc.txt'', ''[$file missing.txt]'')]) st ''missing.txt'')
     = ''[$file missing.txt]''
   \<and> fst (process_file_recursive (Suc (Suc (Suc n))) (files_env [(''doc.txt'', ''[$file missing.txt]'')])
            initial_state ''missing.txt'' None 0)
       = Returned ''[# $file missing.txt: infinite loop]''
   \<and> fst (process_file_recursive (Suc (Suc (Suc (Suc (Suc n))))) (files_env [(''doc.txt'', ''[$file missing.txt]'')])
            initial_state ''doc.txt'' None 0)
       = Returned ''[# $file missing.txt: infinite loop]''"
proof (intro conjI)
  let ?E = "files_env [(''doc.txt'', ''[$file missing.txt]'')]"
  have miss: "\<forall>c. fs ?E ''missing.txt'' \<noteq> Content c"
    by (simp add: files_env_def)
  show "fst (read_file_content ?E st ''missing.txt'') = ''[$file missing.txt]''"
    using read_file_content_fallback(1) [OF miss, of st] by simp
  show "fst (process_file_recursive (Suc (Suc (Suc n))) ?E initial_state ''missing.txt'' None 0)
       = Returned ''[# $file missing.txt: infinite loop]''"
    using missing_source_expansion [OF plain_missing_txt miss, of initial_state 0 "Suc (Suc (Suc n))" None]
    by (simp add: initial_state_def del: process_file_recursive.simps)
  have inner: "fst (process_file_recursive (Suc (Suc (Suc n))) ?E
           (initial_state\<lparr>current_path := current_path initial_state @ [''doc.txt''],
                           opened := opened initial_state @ [''doc.txt'']\<rparr>)
           ''missing.txt'' None (0 + 1))
       = Returned ''[# $file missing.txt: infinite loop]''"
    using missing_source_expansion [OF plain_missing_txt miss, of _ "0 + 1" "Suc (Suc (Suc n))" None]
    by (simp add: initial_state_def del: process_file_recursive.simps)
  have nm: "\<not> has_marker ''[# $file missing.txt: infinite loop]''"
    by simp
  show "fst (process_file_recursive (Suc (Suc (Suc (Suc (Suc n))))) ?E initial_state ''doc.txt'' None 0)
       = Returned ''[# $file missing.txt: infinite loop]''"
    by (rule include_passes_text [OF plain_missing_txt _ _ _ inner nm, unfolded append_Nil])
       (simp_all add: files_env_def initial_state_def)
qed

text \<open>
  Claim C3: for a directive whose name has no handler the engine prints a diagnostic,
  puts the matched text back unchanged, and the loop still terminates.

  A round of the loop on \<^verbatim>\<open>[$foo]\<close> does print the warning and leaves the text as it is;
  the next round therefore meets the same directive, and the expansion of a source with
  this text does not finish with any amount of fuel.
\<close>

theorem unknown_directive_never_terminates:
  "expand_loop (Suc n) E st ctx ''[$foo]''
     = expand_loop n E (emit (UnknownDirective ''foo'') st) ctx ''[$foo]''
   \<and> fst (process_file_recursive n (files_env [(''u.txt'', ''[$foo]'')]) initial_state ''u.txt'' None 0)
       = OutOfFuel"
proof
  show "expand_loop (Suc n) E st ctx ''[$foo]''
     = expand_loop n E (emit (UnknownDirective ''foo'') st) ctx ''[$foo]''"
    using unknown_directive_round [OF parse_foo, of n E st ctx] foo_unknown by simp
  show "fst (process_file_recursive n (files_env [(''u.txt'', ''[$foo]'')]) initial_state ''u.txt'' None 0)
       = OutOfFuel"
    by (rule unknown_directive_source_never_finishes [OF fs_files_env_hd parse_foo])
       (simp_all add: foo_unknown initial_state_def)
qed

text \<open>
  Claim C4: the expansion fails with DepthExceeded exactly when its depth argument exceeds
  100; consequently a chain of 101 nested sources, each including the next, triggers
  DepthExceeded at the top-level expansion rather than succeeding.

  The first half holds.  The second does not: on the chain of 101 sources the top-level
  expansion returns a text, the placeholder that the \<^verbatim>\<open>file\<close> handler of the last source
  of the chain puts in place of its inclusion.
\<close>

theorem chain_of_101_returns:
  "fst (process_file_recursive 300 chain_env initial_state ''a'' None 0)
     = Returned (''[# $file '' @ replicate 102 (CHR ''a'') @ '': infinite loop]'')"
proof -
  have "fst (process_file_recursive 300 chain_env initial_state (replicate (Suc 0) (CHR ''a'')) None
          (int (Suc 0) - 1)) = Returned chain_placeholder"
    by (rule chain_level [of _ 100]) (simp_all add: initial_state_def)
  then show ?thesis by (simp add: chain_placeholder_def)
qed

text \<open>
  Claim C4 as amended: with fuel for its first step, the expansion raises DepthExceeded
  exactly when its depth argument exceeds 100; the \<^verbatim>\<open>file\<close> and \<^verbatim>\<open>fileif\<close> handlers never
  let DepthExceeded through, whatever the nested call does, so an expansion called at
  depth 0 never raises it.
\<close>

theorem depth_exceeded_only_at_entry:
  "((\<exists>msg. fst (process_file_recursive (Suc n) E st f a d) = Raised (RecursionError msg))
      \<longleftrightarrow> d > 100)
   \<and> fst (handle_file rec E st argv ctx) \<noteq> Raised (RecursionError msg')
   \<and> fst (handle_fileif rec E st argv ctx) \<noteq> Raised (RecursionError msg')
   \<and> fst (process_file_recursive (Suc n) E st f a 0) \<noteq> Raised (RecursionError msg')"
proof (intro conjI)
  show "(\<exists>msg. fst (process_file_recursive (Suc n) E st f a d) = Raised (RecursionError msg))
      \<longleftrightarrow> d > 100"
    by (rule depth_exceeded_exactly)
  show "fst (handle_file rec E st argv ctx) \<noteq> Raised (RecursionError msg')"
    using handle_file_catches [of rec E st argv ctx "RecursionError msg'"] by auto
  show "fst (handle_fileif rec E st argv ctx) \<noteq> Raised (RecursionError msg')"
    using handle_fileif_catches [of rec E st argv ctx "RecursionError msg'"] by auto
  show "fst (process_file_recursive (Suc n) E st f a 0) \<noteq> Raised (RecursionError msg')"
    using depth_exceeded_exactly [of n E st f a 0] by auto
qed




text \<open>
  Claim C6: when source \<open>A\<close> holds \<^verbatim>\<open>[$file B]\<close> and source \<open>B\<close> holds \<^verbatim>\<open>[$file A]\<close>, the
  expansion of \<open>A\<close> terminates and returns a text with the placeholder
  \<^verbatim>\<open>[# $file A: infinite loop]\<close>; the condition is caught at the \<^verbatim>\<open>file\<close> handler, so only
  that directive is replaced, and the error message reports the whole stack path.

  Here \<open>A\<close> and \<open>B\<close> are two plain names, the directives stand between texts without an
  opening bracket, and the depth leaves room for the two nested calls.  With fuel 5 or
  more the call returns both texts around the placeholder, the stack as it was, both
  sources opened once, and one message printed: the path of the stack followed by \<open>A\<close>,
  \<open>B\<close>, \<open>A\<close>.
\<close>

theorem cycle_caught_at_file_handler:
  assumes "plain_name A" and "plain_name B" and "A \<noteq> B"
    and "CHR ''['' \<notin> set pa" and "CHR ''['' \<notin> set qa"
    and "CHR ''['' \<notin> set pb" and "CHR ''['' \<notin> set qb"
    and "fs E A = Content (pa @ ''[$file '' @ B @ '']'' @ qa)"
    and "fs E B = Content (pb @ ''[$file '' @ A @ '']'' @ qb)"
    and "A \<notin> set (current_path st)" and "B \<notin> set (current_path st)"
    and "d \<le> 98" and "5 \<le> n"
  shows "process_file_recursive n E st A a d =
     (Returned (pa @ pb @ ''[# $file '' @ A @ '': infinite loop]'' @ qb @ qa),
      st\<lparr>opened := opened st @ [A, B],
         console := console st @
           [ErrorProcessing A (CircularReferenceError
              (''Circular reference detected: '' @ join '' -> '' (current_path st @ [A, B, A])))]\<rparr>)"
  using assms by (rule cycle_expansion)

theorem cycle_caught_at_file_handler_witness:
  "process_file_recursive 5
     (files_env [(''A'', ''x [$file B] y''), (''B'', ''u [$file A] v'')]) initial_state ''A'' None 0
   = (Returned ''x u [# $file A: infinite loop] v y'',
      \<lparr> current_path = [], opened = [''A'', ''B''],
        console = [ErrorProcessing ''A''
                     (CircularReferenceError ''Circular reference detected: A -> B -> A'')] \<rparr>)"
  using cycle_caught_at_file_handler [where A = "''A''" and B = "''B''" and pa = "''x ''"
      and qa = "'' y''" and pb = "''u ''" and qb = "'' v''" and st = initial_state and d = 0
      and n = 5 and a = None
      and E = "files_env [(''A'', ''x [$file B] y''), (''B'', ''u [$file A] v'')]"]
  by (simp add: plain_name_def is_space_def files_env_def initial_state_def)



text \<open>
  Claim C8: when the gate key of a \<^verbatim>\<open>fileif\<close> is absent from the scope of the current
  frame or bound to a false value, the handler returns the empty text, and the target is
  neither loaded nor expanded; so \<^verbatim>\<open>[$fileif other.txt flag]\<close> with such a \<open>flag\<close> expands
  to the empty text without loading \<^verbatim>\<open>other.txt\<close>.

  The handler returns before it reaches the recursive call, whatever that call would do;
  the only trace it leaves is the line it prints about the gate.  The source that holds
  the directive is the only one opened.
\<close>

theorem fileif_gate_closed:
  assumes "\<not> truthy (dict_get scope check (PBool False))"
  shows "handle_fileif rec E st (filename # check # rest)
           \<lparr> ctx_depth = d, ctx_args = scope, ctx_filename = f \<rparr>
         = (Returned (PStr []),
            emit (GateCheck check scope (dict_get scope check (PBool False))) st)
       \<and> (check = ''flag'' \<and> fs E f = Content ''[$fileif other.txt flag]''
            \<and> f \<notin> set (current_path st) \<and> d \<le> 100
          \<longrightarrow> process_file_recursive (Suc (Suc (Suc n))) E st f (Some scope) d
              = (Returned [],
                 st\<lparr>opened := opened st @ [f],
                    console := console st
                      @ [GateCheck ''flag'' scope (dict_get scope ''flag'' (PBool False))]\<rparr>))"
proof (intro conjI impI)
  show "handle_fileif rec E st (filename # check # rest)
           \<lparr> ctx_depth = d, ctx_args = scope, ctx_filename = f \<rparr>
         = (Returned (PStr []),
            emit (GateCheck check scope (dict_get scope check (PBool False))) st)"
    using handle_fileif_gate_closed [of "\<lparr> ctx_depth = d, ctx_args = scope, ctx_filename = f \<rparr>"
        check rec E st filename rest] assms by simp
  assume "check = ''flag'' \<and> fs E f = Content ''[$fileif other.txt flag]''
            \<and> f \<notin> set (current_path st) \<and> d \<le> 100"
  with assms show "process_file_recursive (Suc (Suc (Suc n))) E st f (Some scope) d
              = (Returned [],
                 st\<lparr>opened := opened st @ [f],
                    console := console st
                      @ [GateCheck ''flag'' scope (dict_get scope ''flag'' (PBool False))]\<rparr>)"
    using fileif_gate_expansion [of scope E f st d n] by blast
qed

theorem fileif_gate_closed_witness:
  "\<not> truthy (dict_get [(PStr ''flag'', PBool False)] ''flag'' (PBool False))
   \<and> process_file_recursive (Suc (Suc (Suc 0)))
        (files_env [(''main.txt'', ''[$fileif other.txt flag]''), (''other.txt'', ''secret'')])
        initial_state ''main.txt'' (Some [(PStr ''flag'', PBool False)]) 0
     = (Returned [],
        \<lparr> current_path = [], opened = [''main.txt''],
          console = [GateCheck ''flag'' [(PStr ''flag'', PBool False)] (PBool False)] \<rparr>)"
  using fileif_gate_closed [where scope = "[(PStr ''flag'', PBool False)]" and check = "''flag''"
      and f = "''main.txt''" and d = 0 and n = 0 and st = initial_state
      and E = "files_env [(''main.txt'', ''[$fileif other.txt flag]''), (''other.txt'', ''secret'')]"]
  by (simp add: dict_get_def files_env_def initial_state_def del: process_file_recursive.simps)





end
